theory Spec2Isabelle
  imports Main "HOL-Library.Multiset"
begin

section \<open>Cards and the deck (package game: Card, Deck)\<close>

text \<open>
  A card is the Go struct \<^verbatim>\<open>Card{Suit, Rank string}\<close>. The zero value of the struct
  (two empty strings) fills the unused part of a freshly made backing array.
\<close>

record Card =
  Suit :: string
  Rank :: string

definition zero_Card :: Card where
  "zero_Card = \<lparr>Suit = [], Rank = []\<rparr>"

definition IsJack :: "Card \<Rightarrow> bool" where
  "IsJack c = (Rank c = ''J'')"

definition suits :: "string list" where
  "suits = [''hearts'', ''diamonds'', ''clubs'', ''spades'']"

definition ranks :: "string list" where
  "ranks = [''A'', ''2'', ''3'', ''4'', ''5'', ''6''] @ [''7'', ''8'', ''9'', ''10'', ''J'', ''Q'', ''K'']"

text \<open>NewDeck: for each suit, for each rank, append the card.\<close>

definition NewDeck :: "Card list" where
  "NewDeck = concat (map (\<lambda>s. map (\<lambda>r. \<lparr>Suit = s, Rank = r\<rparr>) ranks) suits)"

text \<open>
  Shuffle hands the swap closure to \<^verbatim>\<open>rand.Shuffle\<close>, which runs the Fisher-Yates loop
  \<^verbatim>\<open>for i := n-1; i > 0; i-- { j := Intn(i+1); swap(i, j) }\<close>. The random source is not
  part of the repository: \<open>rnd i\<close> is the number it draws at step \<open>i\<close>, reduced into
  the range \<open>0..i\<close> that \<^verbatim>\<open>Intn(i+1)\<close> guarantees.
\<close>

definition swap_cards :: "nat \<Rightarrow> nat \<Rightarrow> Card list \<Rightarrow> Card list" where
  "swap_cards i j cs = cs[i := cs ! j, j := cs ! i]"

fun shuffle_from :: "(nat \<Rightarrow> nat) \<Rightarrow> nat \<Rightarrow> Card list \<Rightarrow> Card list" where
  "shuffle_from rnd 0 cs = cs"
| "shuffle_from rnd (Suc i) cs =
     shuffle_from rnd i (swap_cards (Suc i) (rnd (Suc i) mod (Suc i + 1)) cs)"

definition Shuffle :: "(nat \<Rightarrow> nat) \<Rightarrow> Card list \<Rightarrow> Card list" where
  "Shuffle rnd cs = shuffle_from rnd (length cs - 1) cs"

text \<open>
  Deal: card number \<open>i\<close> of the deck is appended to hand \<open>i % numPlayers\<close>. With no
  players the first \<^verbatim>\<open>i % numPlayers\<close> divides by zero and the Go runtime panics: \<open>None\<close>.
\<close>

fun deal_loop :: "nat \<Rightarrow> nat \<Rightarrow> Card list \<Rightarrow> Card list list \<Rightarrow> Card list list" where
  "deal_loop n i [] hands = hands"
| "deal_loop n i (c # cs) hands =
     deal_loop n (i + 1) cs (hands[i mod n := hands ! (i mod n) @ [c]])"

definition Deal :: "Card list \<Rightarrow> nat \<Rightarrow> Card list list option" where
  "Deal cards numPlayers =
     (if numPlayers = 0 \<and> cards \<noteq> [] then None
      else Some (deal_loop numPlayers 0 cards (replicate numPlayers [])))"

section \<open>Slap rules (package game: Rules, CheckSlap)\<close>

type_synonym SlapReason = string

definition SlapReasonJack :: SlapReason where "SlapReasonJack = ''jack''"
definition SlapReasonDoubles :: SlapReason where "SlapReasonDoubles = ''doubles''"
definition SlapReasonSandwich :: SlapReason where "SlapReasonSandwich = ''sandwich''"
definition SlapReasonInvalid :: SlapReason where "SlapReasonInvalid = ''invalid''"

record Rules =
  EnableDoubles :: bool
  EnableSandwich :: bool

definition NewRules :: "bool \<Rightarrow> bool \<Rightarrow> Rules" where
  "NewRules enableDoubles enableSandwich =
     \<lparr>EnableDoubles = enableDoubles, EnableSandwich = enableSandwich\<rparr>"

text \<open>
  CheckSlap reads the pile by index from its end, as the source does; every index is
  guarded by the length test in front of it.
\<close>

definition CheckSlap :: "Rules \<Rightarrow> Card list \<Rightarrow> SlapReason" where
  "CheckSlap r pile =
     (if length pile = 0 then SlapReasonInvalid
      else if IsJack (pile ! (length pile - 1)) then SlapReasonJack
      else if EnableDoubles r \<and> length pile \<ge> 2 \<and>
              Rank (pile ! (length pile - 1)) = Rank (pile ! (length pile - 2))
        then SlapReasonDoubles
      else if EnableSandwich r \<and> length pile \<ge> 3 \<and>
              Rank (pile ! (length pile - 1)) = Rank (pile ! (length pile - 3))
        then SlapReasonSandwich
      else SlapReasonInvalid)"

definition IsValidSlap :: "Rules \<Rightarrow> Card list \<Rightarrow> bool" where
  "IsValidSlap r pile = (CheckSlap r pile \<noteq> SlapReasonInvalid)"

text \<open>
  The slap conditions as the specification words them, on the pile read from its top:
  the top card is a Jack; else (if enabled) the top two cards share rank; else (if
  enabled) the top card and the third card from the top share rank; else invalid.
\<close>

fun spec_slap_validity :: "bool \<Rightarrow> bool \<Rightarrow> Card list \<Rightarrow> SlapReason" where
  "spec_slap_validity doubles sandwich [] = ''invalid''"
| "spec_slap_validity doubles sandwich (first # below) =
     (if Rank first = ''J'' then ''jack''
      else if doubles \<and> (case below of second # _ \<Rightarrow> Rank second = Rank first | [] \<Rightarrow> False)
        then ''doubles''
      else if sandwich \<and> (case below of _ # third # _ \<Rightarrow> Rank third = Rank first | _ \<Rightarrow> False)
        then ''sandwich''
      else ''invalid'')"

section \<open>Go slices over an explicit store of backing arrays\<close>

text \<open>
  The hands and the pile are Go slices: a slice is a window (offset, length) into a
  backing array, and its capacity reaches to the end of that array. Reslicing
  (\<^verbatim>\<open>hand[1:]\<close>, \<^verbatim>\<open>hand[:n]\<close>) keeps the array, and \<^verbatim>\<open>append\<close> writes into the array in
  place whenever the capacity suffices, so two slices of one array see each other's
  writes. The store lists the backing arrays (an address is an index into it); the
  length of an array is its capacity. Address 0 holds the empty array, on which the nil
  slice (what a map lookup returns for a missing key) sits.
\<close>

type_synonym store = "Card list list"

record slice =
  arr :: nat
  off :: nat
  len :: nat

definition nil_slice :: slice where
  "nil_slice = \<lparr>arr = 0, off = 0, len = 0\<rparr>"

definition array_at :: "store \<Rightarrow> nat \<Rightarrow> Card list" where
  "array_at m a = (if a < length m then m ! a else [])"

definition cap :: "store \<Rightarrow> slice \<Rightarrow> nat" where
  "cap m s = length (array_at m (arr s)) - off s"

definition cards_of :: "store \<Rightarrow> slice \<Rightarrow> Card list" where
  "cards_of m s = take (len s) (drop (off s) (array_at m (arr s)))"

definition slice_nth :: "store \<Rightarrow> slice \<Rightarrow> nat \<Rightarrow> Card" where
  "slice_nth m s i = array_at m (arr s) ! (off s + i)"

definition wf_slice :: "store \<Rightarrow> slice \<Rightarrow> bool" where
  "wf_slice m s = (arr s < length m \<and> off s + len s \<le> length (m ! arr s))"

text \<open>\<^verbatim>\<open>make([]Card, 0, c)\<close>: a fresh array of \<open>c\<close> zero cards and an empty slice on it.\<close>

definition make_slice :: "store \<Rightarrow> nat \<Rightarrow> store \<times> slice" where
  "make_slice m c = (m @ [replicate c zero_Card], \<lparr>arr = length m, off = 0, len = 0\<rparr>)"

definition write_at :: "Card list \<Rightarrow> nat \<Rightarrow> Card list \<Rightarrow> Card list" where
  "write_at a i xs = take i a @ xs @ drop (i + length xs) a"

text \<open>
  \<^verbatim>\<open>append(s, xs...)\<close>. If the result fits the capacity of \<open>s\<close>, the new elements are
  written into the array of \<open>s\<close> right behind its last element and the array is kept.
  Otherwise a new array is allocated and the elements are copied. How much larger than
  needed the new array is, is the runtime's choice: \<open>grow c n\<close> is the slack it adds
  when a slice of capacity \<open>c\<close> has to hold \<open>n\<close> elements. The appended values are read
  before anything is written, as \<^verbatim>\<open>append\<close> does for overlapping memory.
\<close>

definition append_slice ::
  "(nat \<Rightarrow> nat \<Rightarrow> nat) \<Rightarrow> store \<Rightarrow> slice \<Rightarrow> Card list \<Rightarrow> store \<times> slice" where
  "append_slice grow m s xs =
     (let n = len s + length xs in
      if n \<le> cap m s
      then (m[arr s := write_at (array_at m (arr s)) (off s + len s) xs], s\<lparr>len := n\<rparr>)
      else (m @ [cards_of m s @ xs @ replicate (grow (cap m s) n) zero_Card],
            \<lparr>arr = length m, off = 0, len = n\<rparr>))"

section \<open>The game state (package game: Game, GameStats)\<close>

text \<open>
  A Go runtime panic (index out of range, division by zero, slice bounds out of range)
  ends the call without a result.
\<close>

datatype 'a outcome = Done 'a | Panic

record SlapAttempt =
  AttemptPlayerID :: string
  ServerTimestamp :: int
  ClientTimestamp :: int

record GameStats =
  TotalSlaps :: int
  SuccessfulSlaps :: "string \<rightharpoonup> int"
  CardsBurned :: "string \<rightharpoonup> int"

text \<open>
  The fields of the Go struct, without its mutexes, its timer channel and its start time;
  \<open>Mem\<close> is the store that the slices \<open>PlayerHands\<close> and \<open>Pile\<close> point into. Times are
  nanoseconds of the monotonic clock.
\<close>

record Game =
  Mem :: store
  PlayerHands :: "string \<rightharpoonup> slice"
  Pile :: slice
  TurnOrder :: "string list"
  CurrentTurnIdx :: nat
  Rules :: Rules
  BurnPenalty :: int
  SlapCooldownMs :: int
  TurnTimeoutMs :: int
  EnableSlapIn :: bool
  MaxSlapIns :: int
  SlapInCounts :: "string \<rightharpoonup> int"
  LastSlapTime :: "string \<rightharpoonup> int"
  PendingSlaps :: "SlapAttempt list"
  SlapWindowOpen :: bool
  Stats :: GameStats

text \<open>Reading a Go map at a missing key gives the zero value: the nil slice, or 0.\<close>

definition hand_slice :: "Game \<Rightarrow> string \<Rightarrow> slice" where
  "hand_slice g playerID = (case PlayerHands g playerID of None \<Rightarrow> nil_slice | Some s \<Rightarrow> s)"

definition count_of :: "(string \<rightharpoonup> int) \<Rightarrow> string \<Rightarrow> int" where
  "count_of m k = (case m k of None \<Rightarrow> 0 | Some v \<Rightarrow> v)"

text \<open>The cards a player holds and the cards of the pile, as the slices read them.\<close>

definition hand :: "Game \<Rightarrow> string \<Rightarrow> Card list" where
  "hand g playerID = cards_of (Mem g) (hand_slice g playerID)"

definition pile_cards :: "Game \<Rightarrow> Card list" where
  "pile_cards g = cards_of (Mem g) (Pile g)"

text \<open>
  NewGame: the shuffled deck is dealt round-robin; hand \<open>i\<close> lives in an array of its own
  of capacity \<open>52/numPlayers + 1\<close> (which the dealt cards never exceed), the pile in a
  fresh array of capacity 52. A player id that occurs twice keeps its last hand only,
  as the map assignment does.
\<close>

definition NewGame ::
  "(nat \<Rightarrow> nat) \<Rightarrow> string list \<Rightarrow> bool \<Rightarrow> bool \<Rightarrow> int \<Rightarrow> int \<Rightarrow> int \<Rightarrow> bool \<Rightarrow> int
     \<Rightarrow> Game outcome" where
  "NewGame rnd playerIDs enableDoubles enableSandwich burnPenalty slapCooldownMs turnTimeoutMs
       enableSlapIn maxSlapIns =
     (case Deal (Shuffle rnd NewDeck) (length playerIDs) of
        None \<Rightarrow> Panic
      | Some hands \<Rightarrow>
          let n = length playerIDs;
              m0 = [] # map (\<lambda>h. h @ replicate (52 div n + 1 - length h) zero_Card) hands;
              hs = map (\<lambda>i. \<lparr>arr = Suc i, off = 0, len = length (hands ! i)\<rparr>) [0..<n];
              (m1, pile) = make_slice m0 52
          in Done \<lparr>Mem = m1,
                   PlayerHands = Map.empty(playerIDs [\<mapsto>] hs),
                   Pile = pile,
                   TurnOrder = playerIDs,
                   CurrentTurnIdx = 0,
                   Rules = NewRules enableDoubles enableSandwich,
                   BurnPenalty = burnPenalty,
                   SlapCooldownMs = slapCooldownMs,
                   TurnTimeoutMs = turnTimeoutMs,
                   EnableSlapIn = enableSlapIn,
                   MaxSlapIns = maxSlapIns,
                   SlapInCounts = Map.empty(playerIDs [\<mapsto>] map (\<lambda>_. 0) playerIDs),
                   LastSlapTime = Map.empty,
                   PendingSlaps = [],
                   SlapWindowOpen = False,
                   Stats = \<lparr>TotalSlaps = 0, SuccessfulSlaps = Map.empty,
                            CardsBurned = Map.empty\<rparr>\<rparr>)"

section \<open>Playing a card and advancing the turn\<close>

text \<open>
  advanceTurn is the source's unbounded \<^verbatim>\<open>for\<close> loop: step the index (modulo the number
  of seats; with no seats the modulo panics), stop at a seat with cards or back at the
  start. Nothing in the loop itself bounds the number of rounds, so it is a partial
  function: \<open>None\<close> is a loop that never returns.
\<close>

partial_function (option) advanceTurn_loop :: "nat \<Rightarrow> Game \<Rightarrow> Game outcome option" where
  "advanceTurn_loop startIdx g =
     (if length (TurnOrder g) = 0 then Some Panic
      else
        let g1 = g\<lparr>CurrentTurnIdx := (CurrentTurnIdx g + 1) mod length (TurnOrder g)\<rparr>;
            playerID = TurnOrder g1 ! CurrentTurnIdx g1
        in if len (hand_slice g1 playerID) > 0 then Some (Done g1)
           else if CurrentTurnIdx g1 = startIdx then Some (Done g1)
           else advanceTurn_loop startIdx g1)"

declare advanceTurn_loop.simps [code]

definition advanceTurn :: "Game \<Rightarrow> Game outcome option" where
  "advanceTurn g = advanceTurn_loop (CurrentTurnIdx g) g"

text \<open>
  PlayCard returns the card or an error message, and the state after the call. The
  non-blocking send on the timer channel touches no field of the model.
\<close>

definition PlayCard ::
  "(nat \<Rightarrow> nat \<Rightarrow> nat) \<Rightarrow> Game \<Rightarrow> string \<Rightarrow> ((string + Card) \<times> Game) outcome option" where
  "PlayCard grow g playerID =
     (if \<not> CurrentTurnIdx g < length (TurnOrder g) then Some Panic
      else if TurnOrder g ! CurrentTurnIdx g \<noteq> playerID
        then Some (Done (Inl ''not your turn'', g))
      else
        let hand = hand_slice g playerID in
        if len hand = 0 then Some (Done (Inl ''no cards to play'', g))
        else
          let card = slice_nth (Mem g) hand 0;
              g1 = g\<lparr>PlayerHands := (PlayerHands g)
                      (playerID \<mapsto> hand\<lparr>off := off hand + 1, len := len hand - 1\<rparr>)\<rparr>;
              (m, pile) = append_slice grow (Mem g1) (Pile g1) [card];
              g2 = g1\<lparr>Mem := m, Pile := pile\<rparr>;
              g3 = g2\<lparr>SlapWindowOpen := True, PendingSlaps := []\<rparr>
          in case advanceTurn g3 of
               None \<Rightarrow> None
             | Some Panic \<Rightarrow> Some Panic
             | Some (Done g4) \<Rightarrow> Some (Done (Inr card, g4)))"

section \<open>Slap arbitration (ProcessSlap, applyBurnPenalty)\<close>

record SlapResultPayload =
  PlayerID :: string
  Success :: bool
  Reason :: string
  CardsWon :: int
  BurnPenalty_p :: int

text \<open>
  applyBurnPenalty: \<^verbatim>\<open>burnedCards := hand[:burnCount]\<close> is a slice of the hand's own array
  and keeps the hand's capacity; the hand becomes \<^verbatim>\<open>hand[burnCount:]\<close> in the same array;
  the pile becomes \<^verbatim>\<open>append(burnedCards, g.Pile...)\<close>. A negative burn count makes the
  slice expression panic.
\<close>

definition applyBurnPenalty ::
  "(nat \<Rightarrow> nat \<Rightarrow> nat) \<Rightarrow> Game \<Rightarrow> string \<Rightarrow> (int \<times> Game) outcome" where
  "applyBurnPenalty grow g playerID =
     (let hand = hand_slice g playerID in
      if len hand = 0 then Done (0, g)
      else
        let burnCount = (if BurnPenalty g > int (len hand) then int (len hand)
                         else BurnPenalty g)
        in if burnCount < 0 then Panic
           else
             let burnedCards = hand\<lparr>len := nat burnCount\<rparr>;
                 g1 = g\<lparr>PlayerHands := (PlayerHands g)
                         (playerID \<mapsto> hand\<lparr>off := off hand + nat burnCount,
                                             len := len hand - nat burnCount\<rparr>)\<rparr>;
                 (m, pile) = append_slice grow (Mem g1) burnedCards (cards_of (Mem g1) (Pile g1))
             in Done (burnCount, g1\<lparr>Mem := m, Pile := pile\<rparr>))"

text \<open>The seat of a player: the first index of the id in the turn order.\<close>

fun seat_from :: "nat \<Rightarrow> string list \<Rightarrow> string \<Rightarrow> nat option" where
  "seat_from i [] playerID = None"
| "seat_from i (x # xs) playerID = (if x = playerID then Some i else seat_from (i + 1) xs playerID)"

text \<open>
  A \<^verbatim>\<open>time.Duration\<close> is an int64 of nanoseconds and its arithmetic wraps: the result of
  a product is the mathematical one reduced into the range from \<open>- 2 ^ 63\<close> to
  \<open>2 ^ 63 - 1\<close>.
\<close>

definition wrap64 :: "int \<Rightarrow> int" where
  "wrap64 x = (x + 9223372036854775808) mod 18446744073709551616 - 9223372036854775808"

text \<open>
  The window \<^verbatim>\<open>time.Duration(g.SlapCooldownMs) * time.Millisecond\<close>, in nanoseconds
  (\<^verbatim>\<open>time.Millisecond\<close> is 1000000).
\<close>

definition cooldown_window :: "Game \<Rightarrow> int" where
  "cooldown_window g = wrap64 (SlapCooldownMs g * 1000000)"

text \<open>
  The cooldown test \<^verbatim>\<open>time.Since(lastSlap) < Duration(SlapCooldownMs) * Millisecond\<close>, with
  \<open>now\<close> the clock's reading during the call. Both readings are of the process's
  monotonic clock, so that their difference is the time elapsed between them.
\<close>

definition in_cooldown :: "Game \<Rightarrow> string \<Rightarrow> int \<Rightarrow> bool" where
  "in_cooldown g playerID now =
     (case LastSlapTime g playerID of
        None \<Rightarrow> False
      | Some lastSlap \<Rightarrow> now - lastSlap < cooldown_window g)"

definition canSlapIn :: "Game \<Rightarrow> string \<Rightarrow> bool" where
  "canSlapIn g playerID = (EnableSlapIn g \<and> count_of (SlapInCounts g) playerID < MaxSlapIns g)"

definition slap_failed :: "string \<Rightarrow> string \<Rightarrow> int \<Rightarrow> SlapResultPayload" where
  "slap_failed playerID reason burn =
     \<lparr>PlayerID = playerID, Success = False, Reason = reason, CardsWon = 0, BurnPenalty_p = burn\<rparr>"

text \<open>
  ProcessSlap, in the order of the source: count the attempt, reject on cooldown, record
  the time, then the zero-card gate, the burn on an invalid pile, and the win. The two
  timestamp arguments are not used by the body.
\<close>

definition ProcessSlap ::
  "(nat \<Rightarrow> nat \<Rightarrow> nat) \<Rightarrow> int \<Rightarrow> Game \<Rightarrow> string \<Rightarrow> int \<Rightarrow> int
     \<Rightarrow> (SlapResultPayload \<times> Game) outcome" where
  "ProcessSlap grow now g playerID serverTimestamp clientTimestamp =
     (let g1 = g\<lparr>Stats := (Stats g)\<lparr>TotalSlaps := TotalSlaps (Stats g) + 1\<rparr>\<rparr> in
      if in_cooldown g1 playerID now then Done (slap_failed playerID ''cooldown'' 0, g1)
      else
        let g2 = g1\<lparr>LastSlapTime := (LastSlapTime g1)(playerID \<mapsto> now)\<rparr>;
            playerHasCards = (len (hand_slice g2 playerID) > 0);
            reason = CheckSlap (Rules g2) (cards_of (Mem g2) (Pile g2))
        in if \<not> playerHasCards \<and> \<not> canSlapIn g2 playerID
             then Done (slap_failed playerID ''eliminated'' 0, g2)
           else if \<not> playerHasCards \<and> reason = SlapReasonInvalid
             then Done (slap_failed playerID reason 0, g2)
           else if reason = SlapReasonInvalid then
             (case applyBurnPenalty grow g2 playerID of
                Panic \<Rightarrow> Panic
              | Done (burnCount, g3) \<Rightarrow>
                  Done (slap_failed playerID reason burnCount,
                        g3\<lparr>Stats := (Stats g3)\<lparr>CardsBurned := (CardsBurned (Stats g3))
                          (playerID \<mapsto> count_of (CardsBurned (Stats g3)) playerID + burnCount)\<rparr>\<rparr>))
           else
             let cardsWon = int (len (Pile g2));
                 g3 = (if \<not> playerHasCards
                       then g2\<lparr>SlapInCounts := (SlapInCounts g2)
                               (playerID \<mapsto> count_of (SlapInCounts g2) playerID + 1)\<rparr>
                       else g2);
                 (m, hand) = append_slice grow (Mem g3) (hand_slice g3 playerID)
                               (cards_of (Mem g3) (Pile g3));
                 g4 = g3\<lparr>Mem := m, PlayerHands := (PlayerHands g3)(playerID \<mapsto> hand)\<rparr>;
                 (m', pile) = make_slice (Mem g4) 52;
                 g5 = g4\<lparr>Mem := m', Pile := pile, SlapWindowOpen := False,
                         Stats := (Stats g4)\<lparr>SuccessfulSlaps := (SuccessfulSlaps (Stats g4))
                           (playerID \<mapsto> count_of (SuccessfulSlaps (Stats g4)) playerID + 1)\<rparr>\<rparr>;
                 g6 = (case seat_from 0 (TurnOrder g5) playerID of
                         None \<Rightarrow> g5
                       | Some i \<Rightarrow> g5\<lparr>CurrentTurnIdx := i\<rparr>)
             in Done (\<lparr>PlayerID = playerID, Success = True, Reason = reason,
                       CardsWon = cardsWon, BurnPenalty_p = 0\<rparr>, g6))"

section \<open>The turn timer's timeout branch (StartTurnTimer)\<close>

text \<open>
  What the timer does to the game when the timeout fires before a cancel: the messages
  it broadcasts to the room and the timer it starts are returned as a list of effects.
  The warning goroutine and the cancel channel are scheduling, not game state.
\<close>

datatype message =
    CardPlayed string Card nat
  | TurnChanged string

datatype effect =
    Broadcast string message
  | StartTurnTimer string

definition turn_timeout ::
  "(nat \<Rightarrow> nat \<Rightarrow> nat) \<Rightarrow> Game \<Rightarrow> string \<Rightarrow> (effect list \<times> Game) outcome option" where
  "turn_timeout grow g roomCode =
     (if \<not> CurrentTurnIdx g < length (TurnOrder g) then Some Panic
      else
        let currentPlayer = TurnOrder g ! CurrentTurnIdx g;
            hand = hand_slice g currentPlayer
        in if len hand > 0 then
             let card = slice_nth (Mem g) hand 0;
                 g1 = g\<lparr>PlayerHands := (PlayerHands g)
                         (currentPlayer \<mapsto> hand\<lparr>off := off hand + 1, len := len hand - 1\<rparr>)\<rparr>;
                 (m, pile) = append_slice grow (Mem g1) (Pile g1) [card];
                 g2 = g1\<lparr>Mem := m, Pile := pile\<rparr>;
                 g3 = g2\<lparr>SlapWindowOpen := True\<rparr>
             in case advanceTurn g3 of
                  None \<Rightarrow> None
                | Some Panic \<Rightarrow> Some Panic
                | Some (Done g4) \<Rightarrow>
                    Some (Done ([Broadcast roomCode (CardPlayed currentPlayer card (len (Pile g4))),
                                 Broadcast roomCode (TurnChanged (TurnOrder g4 ! CurrentTurnIdx g4)),
                                 StartTurnTimer roomCode], g4))
           else Some (Done ([], g)))"

section \<open>Rooms (package room: Player, Room)\<close>

record Player =
  ID :: string
  Name :: string
  IsHost :: bool
  IsConnected :: bool
  Position :: int

text \<open>
  The room's roster is a Go map from player id to player. The settings and the game
  pointer of the Go struct play no part in the roster operations and are left out.
\<close>

record Room =
  Code :: string
  Players :: "string \<rightharpoonup> Player"
  Status :: string
  HostID :: string

text \<open>
  NewRoom and AddPlayer draw the new player's id from \<^verbatim>\<open>uuid.New()\<close>; the id drawn is the
  argument \<open>playerID\<close>.
\<close>

definition NewRoom :: "string \<Rightarrow> string \<Rightarrow> string \<Rightarrow> Room \<times> string" where
  "NewRoom code hostName playerID =
     (let host = \<lparr>ID = playerID, Name = hostName, IsHost = True, IsConnected = True,
                  Position = 0\<rparr>
      in (\<lparr>Code = code, Players = [playerID \<mapsto> host], Status = ''waiting'',
           HostID = playerID\<rparr>, playerID))"

definition AddPlayer :: "Room \<Rightarrow> string \<Rightarrow> string \<Rightarrow> Player \<times> Room" where
  "AddPlayer r name playerID =
     (let position = int (card (dom (Players r)));
          player = \<lparr>ID = playerID, Name = name, IsHost = False, IsConnected = True,
                    Position = position\<rparr>
      in (player, r\<lparr>Players := (Players r)(playerID \<mapsto> player)\<rparr>))"

text \<open>
  A \<^verbatim>\<open>range\<close> over a Go map visits the entries in an order the runtime chooses; each of
  the two loops of RemovePlayer takes the order of its visit as a list of keys.
\<close>

fun assign_host :: "string list \<Rightarrow> Room \<Rightarrow> Room" where
  "assign_host [] r = r"
| "assign_host (k # ks) r =
     (case Players r k of
        None \<Rightarrow> assign_host ks r
      | Some p \<Rightarrow>
          if IsConnected p
          then r\<lparr>HostID := k, Players := (Players r)(k \<mapsto> p\<lparr>IsHost := True\<rparr>)\<rparr>
          else assign_host ks r)"

fun reindex :: "string list \<Rightarrow> int \<Rightarrow> Room \<Rightarrow> Room" where
  "reindex [] pos r = r"
| "reindex (k # ks) pos r =
     (case Players r k of
        None \<Rightarrow> reindex ks pos r
      | Some p \<Rightarrow> reindex ks (pos + 1) (r\<lparr>Players := (Players r)(k \<mapsto> p\<lparr>Position := pos\<rparr>)\<rparr>))"

definition RemovePlayer :: "string list \<Rightarrow> string list \<Rightarrow> Room \<Rightarrow> string \<Rightarrow> Room" where
  "RemovePlayer visit1 visit2 r playerID =
     (let r1 = r\<lparr>Players := (Players r)(playerID := None)\<rparr>;
          r2 = (if HostID r1 = playerID \<and> dom (Players r1) \<noteq> {}
                then assign_host visit1 r1 else r1)
      in reindex visit2 0 r2)"

definition MarkPlayerDisconnected :: "Room \<Rightarrow> string \<Rightarrow> Room" where
  "MarkPlayerDisconnected r playerID =
     (case Players r playerID of
        None \<Rightarrow> r
      | Some p \<Rightarrow> r\<lparr>Players := (Players r)(playerID \<mapsto> p\<lparr>IsConnected := False\<rparr>)\<rparr>)"

text \<open>
  The host invariant: every player is filed under its own id, a player has \<open>IsHost\<close>
  exactly when its id is the room's \<open>HostID\<close>, and \<open>HostID\<close> is one of the players. So
  exactly one player is host, and it is the one \<open>HostID\<close> names.
\<close>

definition one_host :: "Room \<Rightarrow> bool" where
  "one_host r =
     (HostID r \<in> dom (Players r) \<and>
      (\<forall>k p. Players r k = Some p \<longrightarrow> ID p = k \<and> (IsHost p \<longleftrightarrow> k = HostID r)))"

text \<open>
  Two example rooms: a lobby with the host \<open>h\<close> and a guest \<open>p\<close>, and the same
  lobby after the guest's connection was marked as lost.
\<close>

definition lobby_room :: Room where
  "lobby_room = snd (AddPlayer (fst (NewRoom ''ABCD'' ''Ann'' ''h'')) ''Bob'' ''p'')"

definition demo_room :: Room where
  "demo_room = MarkPlayerDisconnected lobby_room ''p''"

section \<open>The turn advance, as the specification words it\<close>

text \<open>
  The seats are examined circularly, starting behind the current one: the first of the
  other seats whose player holds a card is the next seat; if every other seat is empty
  the index stays where it is.
\<close>

definition has_cards :: "Game \<Rightarrow> nat \<Rightarrow> bool" where
  "has_cards g k = (len (hand_slice g (TurnOrder g ! k)) > 0)"

definition seats_after :: "Game \<Rightarrow> nat \<Rightarrow> nat list" where
  "seats_after g d = map (\<lambda>e. (CurrentTurnIdx g + e) mod length (TurnOrder g)) [d..<length (TurnOrder g)]"

definition spec_next_seat_from :: "Game \<Rightarrow> nat \<Rightarrow> nat" where
  "spec_next_seat_from g d =
     (case find (has_cards g) (seats_after g d) of
        Some k \<Rightarrow> k | None \<Rightarrow> CurrentTurnIdx g)"

definition spec_next_seat :: "Game \<Rightarrow> nat" where
  "spec_next_seat g = spec_next_seat_from g 1"

section \<open>The state after a play\<close>

text \<open>
  The state that PlayCard and the timer's timeout both build before they advance the
  turn: the front card of the hand is moved to the top of the pile and the slap window
  is opened.
\<close>

definition played :: "(nat \<Rightarrow> nat \<Rightarrow> nat) \<Rightarrow> Game \<Rightarrow> string \<Rightarrow> Game" where
  "played grow g p =
     (let h = hand_slice g p;
          ap = append_slice grow (Mem g) (Pile g) [slice_nth (Mem g) h 0]
      in g\<lparr>PlayerHands := (PlayerHands g)(p \<mapsto> h\<lparr>off := off h + 1, len := len h - 1\<rparr>),
           Mem := fst ap, Pile := snd ap, SlapWindowOpen := True\<rparr>)"

section \<open>Counting and time-stamping a slap attempt\<close>

text \<open>
  \<open>counted\<close> is the state after \<^verbatim>\<open>g.Stats.TotalSlaps++\<close>, \<open>stamped\<close> the state after the
  attempt has also passed the cooldown test and its time has been recorded. \<open>slaps\<close>
  runs one ProcessSlap per clock reading of the list, all by the same player.
\<close>

definition counted :: "Game \<Rightarrow> Game" where
  "counted g = g\<lparr>Stats := (Stats g)\<lparr>TotalSlaps := TotalSlaps (Stats g) + 1\<rparr>\<rparr>"

definition stamped :: "Game \<Rightarrow> string \<Rightarrow> int \<Rightarrow> Game" where
  "stamped g p now = (counted g)\<lparr>LastSlapTime := (LastSlapTime g)(p \<mapsto> now)\<rparr>"

fun slaps ::
  "(nat \<Rightarrow> nat \<Rightarrow> nat) \<Rightarrow> Game \<Rightarrow> string \<Rightarrow> int list \<Rightarrow> (SlapResultPayload list \<times> Game) outcome" where
  "slaps grow g p [] = Done ([], g)"
| "slaps grow g p (t # ts) =
     (case ProcessSlap grow t g p 0 0 of
        Panic \<Rightarrow> Panic
      | Done (r, g') \<Rightarrow>
          (case slaps grow g' p ts of
             Panic \<Rightarrow> Panic
           | Done (rs, g'') \<Rightarrow> Done (r # rs, g'')))"

section \<open>Sequences of engine operations\<close>

text \<open>
  The operations that act on a game after NewGame: a PlayCard by a player, a ProcessSlap
  by a player at a clock reading, and the turn timer's timeout. \<open>run\<close> applies a list of
  them in order and stops at a panic or at a call that does not return.
\<close>

datatype action = Play string | Slap string int | Timeout string

fun step :: "(nat \<Rightarrow> nat \<Rightarrow> nat) \<Rightarrow> Game \<Rightarrow> action \<Rightarrow> Game outcome option" where
  "step grow g (Play p) =
     (case PlayCard grow g p of
        None \<Rightarrow> None | Some Panic \<Rightarrow> Some Panic | Some (Done (r, g')) \<Rightarrow> Some (Done g'))"
| "step grow g (Slap p now) =
     (case ProcessSlap grow now g p 0 0 of
        Panic \<Rightarrow> Some Panic | Done (r, g') \<Rightarrow> Some (Done g'))"
| "step grow g (Timeout room) =
     (case turn_timeout grow g room of
        None \<Rightarrow> None | Some Panic \<Rightarrow> Some Panic | Some (Done (es, g')) \<Rightarrow> Some (Done g'))"

fun run :: "(nat \<Rightarrow> nat \<Rightarrow> nat) \<Rightarrow> Game \<Rightarrow> action list \<Rightarrow> Game outcome option" where
  "run grow g [] = Some (Done g)"
| "run grow g (a # as) =
     (case step grow g a of
        None \<Rightarrow> None | Some Panic \<Rightarrow> Some Panic | Some (Done g') \<Rightarrow> run grow g' as)"

text \<open>All cards of a game: the hands of the seated players, then the pile.\<close>

definition all_cards :: "Game \<Rightarrow> Card list" where
  "all_cards g = concat (map (hand g) (TurnOrder g)) @ pile_cards g"

text \<open>
  A two-player game with the default settings, dealt from the deck as NewDeck builds it
  (every draw of the shuffle picks the swap of a position with itself).
\<close>

definition fresh_game :: "Game outcome" where
  "fresh_game = NewGame (\<lambda>i. i) [''a'', ''b''] True True 1 200 10000 True 3"

definition run_from_start :: "action list \<Rightarrow> Game outcome option" where
  "run_from_start as = (case fresh_game of Panic \<Rightarrow> Some Panic | Done g \<Rightarrow> run (\<lambda>c n. n) g as)"

section \<open>The invariant of the engine\<close>

text \<open>
  What every state produced by NewGame, PlayCard, ProcessSlap and the timeout satisfies
  (lemma \<open>reachable_inv\<close> below): no pending slap attempts, a turn index that names a
  seat, and the pile and every hand a slice inside its backing array. \<open>store_ext\<close> says
  that a store has grown without changing the length of an array it had.
\<close>

definition engine_inv :: "Game \<Rightarrow> bool" where
  "engine_inv g =
     (PendingSlaps g = [] \<and> CurrentTurnIdx g < length (TurnOrder g) \<and>
      wf_slice (Mem g) (Pile g) \<and> (\<forall>p. wf_slice (Mem g) (hand_slice g p)))"

definition store_ext :: "store \<Rightarrow> store \<Rightarrow> bool" where
  "store_ext m m' =
     (length m \<le> length m' \<and> (\<forall>a<length m. length (m' ! a) = length (m ! a)))"

section \<open>A small game state for the examples\<close>

text \<open>
  Three seats; \<open>a\<close> is to play and holds three cards, \<open>b\<close> holds none, \<open>c\<close> holds two. The
  pile is \<open>[2 of clubs, 5 of diamonds]\<close>, which nobody may slap; its array holds a Jack
  behind the top, so that a pile slice of length 3 reads a pile with a Jack on top.
\<close>

definition demo_game :: Game where
  "demo_game =
     \<lparr>Mem = [[],
             [\<lparr>Suit = ''hearts'', Rank = ''5''\<rparr>, \<lparr>Suit = ''clubs'', Rank = ''7''\<rparr>,
              \<lparr>Suit = ''diamonds'', Rank = ''9''\<rparr>, zero_Card],
             [zero_Card, zero_Card],
             [\<lparr>Suit = ''spades'', Rank = ''K''\<rparr>, \<lparr>Suit = ''diamonds'', Rank = ''Q''\<rparr>, zero_Card],
             [\<lparr>Suit = ''clubs'', Rank = ''2''\<rparr>, \<lparr>Suit = ''diamonds'', Rank = ''5''\<rparr>,
              \<lparr>Suit = ''hearts'', Rank = ''J''\<rparr>, zero_Card]],
       PlayerHands = [''a'' \<mapsto> \<lparr>arr = 1, off = 0, len = 3\<rparr>,
                      ''b'' \<mapsto> \<lparr>arr = 2, off = 0, len = 0\<rparr>,
                      ''c'' \<mapsto> \<lparr>arr = 3, off = 0, len = 2\<rparr>],
       Pile = \<lparr>arr = 4, off = 0, len = 2\<rparr>,
       TurnOrder = [''a'', ''b'', ''c''],
       CurrentTurnIdx = 0,
       Rules = NewRules True True,
       BurnPenalty = 1,
       SlapCooldownMs = 200,
       TurnTimeoutMs = 10000,
       EnableSlapIn = False,
       MaxSlapIns = 3,
       SlapInCounts = [''a'' \<mapsto> 0, ''b'' \<mapsto> 0, ''c'' \<mapsto> 0],
       LastSlapTime = Map.empty,
       PendingSlaps = [],
       SlapWindowOpen = True,
       Stats = \<lparr>TotalSlaps = 0, SuccessfulSlaps = Map.empty, CardsBurned = Map.empty\<rparr>\<rparr>"

text \<open>The same game with the Jack on top of the pile.\<close>

definition demo_game_jack :: Game where
  "demo_game_jack = demo_game\<lparr>Pile := \<lparr>arr = 4, off = 0, len = 3\<rparr>\<rparr>"

section \<open>Facts about slices\<close>

lemma length_cards_of: "wf_slice m s \<Longrightarrow> length (cards_of m s) = len s"
  by (auto simp: wf_slice_def cards_of_def array_at_def)

lemma length_write_at: "i + length xs \<le> length a \<Longrightarrow> length (write_at a i xs) = length a"
  by (auto simp: write_at_def)

lemma read_write_at:
  "k + l + length xs \<le> length a \<Longrightarrow>
   take (l + length xs) (drop k (write_at a (k + l) xs)) = take l (drop k a) @ xs"
proof -
  assume fit: "k + l + length xs \<le> length a"
  have front: "drop k (take (k + l) a) = take l (drop k a)"
    by (simp add: drop_take)
  have lfront: "length (take l (drop k a)) = l" using fit by simp
  have "drop k (write_at a (k + l) xs) = take l (drop k a) @ xs @ drop (k + l + length xs) a"
    using fit by (simp add: write_at_def front)
  then show ?thesis using lfront by simp
qed

text \<open>Appending yields the old elements followed by the new ones, in place or not.\<close>

lemma append_slice_cards:
  assumes "wf_slice m s" and "append_slice grow m s xs = (m', s')"
  shows "cards_of m' s' = cards_of m s @ xs"
proof (cases "len s + length xs \<le> cap m s")
  case True
  with assms have a: "arr s < length m"
    and fit: "off s + len s + length xs \<le> length (m ! arr s)"
    by (auto simp: wf_slice_def cap_def array_at_def)
  from True assms(2) have m': "m' = m[arr s := write_at (m ! arr s) (off s + len s) xs]"
    and s': "s' = s\<lparr>len := len s + length xs\<rparr>"
    using a by (auto simp: append_slice_def Let_def array_at_def)
  show ?thesis using a fit read_write_at [of "off s" "len s" xs "m ! arr s"]
    by (simp add: m' s' cards_of_def array_at_def)
next
  case False
  with assms(2) have
    m': "m' = m @ [cards_of m s @ xs @ replicate (grow (cap m s) (len s + length xs)) zero_Card]"
    and s': "s' = \<lparr>arr = length m, off = 0, len = len s + length xs\<rparr>"
    by (auto simp: append_slice_def Let_def)
  show ?thesis using length_cards_of [OF assms(1)]
    by (simp add: m' s' cards_of_def [of "m @ _"] array_at_def)
qed

lemma append_slice_wf:
  assumes "wf_slice m s" and "append_slice grow m s xs = (m', s')"
  shows "wf_slice m' s'" and "len s' = len s + length xs" and "length m \<le> length m'"
  using assms length_cards_of [OF assms(1)]
  by (auto simp: append_slice_def Let_def wf_slice_def cap_def array_at_def length_write_at
      split: if_splits)

section \<open>Slap rules: first match wins\<close>

lemma nth_from_end: "k < length xs \<Longrightarrow> xs ! (length xs - Suc k) = rev xs ! k"
  by (simp add: rev_nth)

text \<open>
  C2. For every pile and every rules configuration CheckSlap evaluates the slap
  conditions top-down and the first match wins: a Jack on top gives \<open>jack\<close> whatever the
  doubles and sandwich settings; otherwise doubles (when enabled and the top two cards
  share rank); otherwise sandwich (when enabled and the top and third-from-top cards
  share rank); otherwise, and on the empty pile, \<open>invalid\<close>. The pile's last element is
  its top, so the specification's reading is taken on the reversed pile.
\<close>

theorem CheckSlap_first_match_wins:
  "CheckSlap r pile = spec_slap_validity (EnableDoubles r) (EnableSandwich r) (rev pile)"
proof -
  have n1: "1 \<le> length pile \<Longrightarrow> pile ! (length pile - 1) = rev pile ! 0"
    using nth_from_end [of 0 pile] by (cases pile) auto
  have n2: "2 \<le> length pile \<Longrightarrow> pile ! (length pile - 2) = rev pile ! 1"
    using nth_from_end [of 1 pile] by (auto simp: numeral_2_eq_2)
  have n3: "3 \<le> length pile \<Longrightarrow> pile ! (length pile - 3) = rev pile ! 2"
    using nth_from_end [of 2 pile] by (auto simp: numeral_3_eq_3)
  have len: "length pile = length (rev pile)" by simp
  show ?thesis
  proof (cases "rev pile")
    case Nil
    then show ?thesis by (simp add: CheckSlap_def SlapReasonInvalid_def)
  next
    case (Cons c1 below)
    with len have l1: "length pile = Suc (length below)" by simp
    show ?thesis
    proof (cases below)
      case Nil
      with Cons l1 n1 show ?thesis
        by (simp add: CheckSlap_def IsJack_def SlapReasonInvalid_def SlapReasonJack_def)
    next
      case c2: (Cons second rest)
      show ?thesis
      proof (cases rest)
        case Nil
        with Cons c2 l1 n1 n2 show ?thesis
          by (simp add: CheckSlap_def IsJack_def SlapReasonInvalid_def SlapReasonJack_def
              SlapReasonDoubles_def eq_commute)
      next
        case c3: (Cons third rest')
        with Cons c2 l1 n1 n2 n3 show ?thesis
          by (simp add: CheckSlap_def IsJack_def SlapReasonInvalid_def SlapReasonJack_def
              SlapReasonDoubles_def SlapReasonSandwich_def eq_commute)
      qed
    qed
  qed
qed

section \<open>advanceTurn terminates at the next seat with cards\<close>

lemma hand_slice_idx [simp]: "hand_slice (g\<lparr>CurrentTurnIdx := j\<rparr>) p = hand_slice g p"
  by (simp add: hand_slice_def)

lemma cyclic_step_neq:
  assumes "i < n" "0 < e" "e < n"
  shows "(i + e) mod n \<noteq> (i::nat)"
proof (cases "i + e < n")
  case True
  then show ?thesis using assms by simp
next
  case False
  then have "(i + e) mod n = i + e - n" using assms by (simp add: mod_if)
  then show ?thesis using assms False by simp
qed

lemma advanceTurn_loop_scan:
  assumes i: "CurrentTurnIdx g < length (TurnOrder g)"
    and d: "d < length (TurnOrder g)"
  shows "advanceTurn_loop (CurrentTurnIdx g)
           (g\<lparr>CurrentTurnIdx := (CurrentTurnIdx g + d) mod length (TurnOrder g)\<rparr>)
         = Some (Done (g\<lparr>CurrentTurnIdx := spec_next_seat_from g (Suc d)\<rparr>))"
  using d
proof (induction k \<equiv> "length (TurnOrder g) - Suc d" arbitrary: d)
  case 0
  let ?n = "length (TurnOrder g)"
  from 0 have dn: "Suc d = ?n" by simp
  have ne: "TurnOrder g \<noteq> []" using i by auto
  have wrap: "((CurrentTurnIdx g + d) mod ?n + 1) mod ?n = CurrentTurnIdx g"
    using i dn by (metis Suc_eq_plus1 add_Suc_right mod_Suc_eq mod_add_self2 mod_less)
  have spec: "spec_next_seat_from g (Suc d) = CurrentTurnIdx g"
    using dn by (simp add: spec_next_seat_from_def seats_after_def)
  show ?case
    using i wrap spec ne
    by (subst advanceTurn_loop.simps) (simp add: Let_def)
next
  case (Suc k)
  let ?n = "length (TurnOrder g)"
  let ?j = "(CurrentTurnIdx g + Suc d) mod ?n"
  from Suc have dn: "Suc d < ?n" by simp
  have ne: "TurnOrder g \<noteq> []" using i by auto
  have step: "((CurrentTurnIdx g + d) mod ?n + 1) mod ?n = ?j"
    by (metis Suc_eq_plus1 add_Suc_right mod_Suc_eq)
  have neq: "?j \<noteq> CurrentTurnIdx g"
    using cyclic_step_neq [OF i _ dn] by simp
  have upt: "[Suc d..<?n] = Suc d # [Suc (Suc d)..<?n]"
    using dn by (simp add: upt_conv_Cons)
  show ?case
  proof (cases "has_cards g ?j")
    case True
    then have "spec_next_seat_from g (Suc d) = ?j"
      by (simp add: spec_next_seat_from_def seats_after_def upt)
    with True show ?thesis
      using i step ne
      by (subst advanceTurn_loop.simps) (simp add: Let_def has_cards_def)
  next
    case False
    then have spec: "spec_next_seat_from g (Suc d) = spec_next_seat_from g (Suc (Suc d))"
      by (simp add: spec_next_seat_from_def seats_after_def upt)
    have "k = ?n - Suc (Suc d)" using Suc.hyps(2) by simp
    from Suc.hyps(1) [OF this dn] spec False show ?thesis
      using i step neq ne
      by (subst advanceTurn_loop.simps) (simp add: Let_def has_cards_def)
  qed
qed

lemma advanceTurn_total:
  assumes "CurrentTurnIdx g < length (TurnOrder g)"
  shows "advanceTurn g = Some (Done (g\<lparr>CurrentTurnIdx := spec_next_seat g\<rparr>))"
proof -
  have "0 < length (TurnOrder g)" using assms by linarith
  from advanceTurn_loop_scan [OF assms this] assms show ?thesis
    by (simp add: advanceTurn_def spec_next_seat_def)
qed

lemma spec_next_seat_less:
  assumes "CurrentTurnIdx g < length (TurnOrder g)"
  shows "spec_next_seat g < length (TurnOrder g)"
proof (cases "find (has_cards g) (seats_after g 1)")
  case None
  then show ?thesis using assms by (simp add: spec_next_seat_def spec_next_seat_from_def)
next
  case (Some k)
  then have "k \<in> set (seats_after g 1)" by (auto simp: find_Some_iff)
  moreover have "0 < length (TurnOrder g)" using assms by linarith
  ultimately have "k < length (TurnOrder g)" by (auto simp: seats_after_def)
  with Some show ?thesis by (simp add: spec_next_seat_def spec_next_seat_from_def)
qed

lemma spec_next_seat_first:
  assumes i: "CurrentTurnIdx g < length (TurnOrder g)"
  shows "\<exists>d. 0 < d \<and> d \<le> length (TurnOrder g) \<and>
           spec_next_seat g = (CurrentTurnIdx g + d) mod length (TurnOrder g) \<and>
           (\<forall>e. 0 < e \<and> e < d \<longrightarrow> \<not> has_cards g ((CurrentTurnIdx g + e) mod length (TurnOrder g))) \<and>
           (d < length (TurnOrder g) \<longrightarrow> has_cards g (spec_next_seat g))"
proof (cases "find (has_cards g) (seats_after g 1)")
  case None
  let ?n = "length (TurnOrder g)"
  have n0: "0 < ?n" using i by linarith
  have "\<forall>e. 0 < e \<and> e < ?n \<longrightarrow> \<not> has_cards g ((CurrentTurnIdx g + e) mod ?n)"
  proof (intro allI impI)
    fix e assume e: "0 < e \<and> e < ?n"
    then have "(CurrentTurnIdx g + e) mod ?n \<in> set (seats_after g 1)"
      by (auto simp: seats_after_def)
    with None show "\<not> has_cards g ((CurrentTurnIdx g + e) mod ?n)"
      by (auto simp: find_None_iff)
  qed
  moreover have "spec_next_seat g = (CurrentTurnIdx g + ?n) mod ?n"
    using None i by (simp add: spec_next_seat_def spec_next_seat_from_def)
  ultimately show ?thesis using n0 by (intro exI [of _ ?n]) simp
next
  case (Some k)
  let ?n = "length (TurnOrder g)"
  from Some obtain j where j: "j < length (seats_after g 1)"
    and hk: "has_cards g (seats_after g 1 ! j)" and k: "k = seats_after g 1 ! j"
    and first: "\<forall>j'<j. \<not> has_cards g (seats_after g 1 ! j')"
    by (auto simp: find_Some_iff)
  have jn: "Suc j < ?n" using j by (simp add: seats_after_def)
  have nth: "\<And>j'. Suc j' < ?n \<Longrightarrow> seats_after g 1 ! j' = (CurrentTurnIdx g + Suc j') mod ?n"
    using nth_upt [of "Suc 0" _ ?n] by (simp add: seats_after_def)
  have sp: "spec_next_seat g = (CurrentTurnIdx g + Suc j) mod ?n"
    using Some k nth [OF jn] by (simp add: spec_next_seat_def spec_next_seat_from_def)
  have "\<forall>e. 0 < e \<and> e < Suc j \<longrightarrow> \<not> has_cards g ((CurrentTurnIdx g + e) mod ?n)"
  proof (intro allI impI)
    fix e assume e: "0 < e \<and> e < Suc j"
    then obtain j' where j': "e = Suc j'" "j' < j" by (cases e) auto
    with first nth [of j'] jn show "\<not> has_cards g ((CurrentTurnIdx g + e) mod ?n)" by auto
  qed
  moreover have "has_cards g (spec_next_seat g)" using hk sp nth [OF jn] by simp
  ultimately show ?thesis using jn sp by (intro exI [of _ "Suc j"]) simp
qed

text \<open>
  C7. In every game state whose turn index names a seat, advanceTurn terminates and
  moves the index circularly forward to the first subsequent seat whose player holds at
  least one card (\<open>d\<close> steps ahead, every seat passed on the way being empty); if every
  other seat is empty it wraps fully around (\<open>d\<close> is the number of seats) and the index
  ends at its original value. Nothing else of the state changes. The turn index names
  a seat in every state the engine reaches (lemma \<open>reachable_inv\<close>); both callers
  of advanceTurn have indexed the turn order with it before they call.
\<close>

theorem advanceTurn_next_seat:
  assumes "CurrentTurnIdx g < length (TurnOrder g)"
  shows "advanceTurn g = Some (Done (g\<lparr>CurrentTurnIdx := spec_next_seat g\<rparr>)) \<and>
         (\<exists>d. 0 < d \<and> d \<le> length (TurnOrder g) \<and>
            spec_next_seat g = (CurrentTurnIdx g + d) mod length (TurnOrder g) \<and>
            (\<forall>e. 0 < e \<and> e < d \<longrightarrow>
                 \<not> has_cards g ((CurrentTurnIdx g + e) mod length (TurnOrder g))) \<and>
            (d < length (TurnOrder g) \<longrightarrow> has_cards g (spec_next_seat g)))"
  using advanceTurn_total [OF assms] spec_next_seat_first [OF assms] by simp

theorem advanceTurn_next_seat_witness:
  "CurrentTurnIdx demo_game < length (TurnOrder demo_game) \<and>
   advanceTurn demo_game = Some (Done (demo_game\<lparr>CurrentTurnIdx := 2\<rparr>))"
proof -
  have h: "CurrentTurnIdx demo_game < length (TurnOrder demo_game)"
    by (simp add: demo_game_def)
  have "spec_next_seat demo_game = 2"
    by (simp add: spec_next_seat_def spec_next_seat_from_def seats_after_def has_cards_def
        demo_game_def hand_slice_def upt_conv_Cons)
  with advanceTurn_next_seat [OF h, THEN conjunct1] h show ?thesis by simp
qed

section \<open>PlayCard: only the player in turn\<close>

lemma PendingSlaps_same: "PendingSlaps g = [] \<Longrightarrow> g\<lparr>PendingSlaps := []\<rparr> = g"
  by (cases g) simp

lemma PlayCard_error:
  assumes "CurrentTurnIdx g < length (TurnOrder g)"
    and "TurnOrder g ! CurrentTurnIdx g \<noteq> p \<or> len (hand_slice g p) = 0"
  shows "\<exists>e. PlayCard grow g p = Some (Done (Inl e, g))"
  using assms by (auto simp: PlayCard_def Let_def)

lemma PlayCard_success:
  assumes i: "CurrentTurnIdx g < length (TurnOrder g)"
    and t: "TurnOrder g ! CurrentTurnIdx g = p" and h: "0 < len (hand_slice g p)"
  shows "PlayCard grow g p =
         Some (Done (Inr (slice_nth (Mem g) (hand_slice g p) 0),
            (played grow g p)\<lparr>PendingSlaps := [],
                CurrentTurnIdx := spec_next_seat ((played grow g p)\<lparr>PendingSlaps := []\<rparr>)\<rparr>))"
proof -
  let ?g3 = "(played grow g p)\<lparr>PendingSlaps := []\<rparr>"
  have "CurrentTurnIdx ?g3 < length (TurnOrder ?g3)" using i by (simp add: played_def Let_def)
  from advanceTurn_total [OF this] show ?thesis
    using i t h by (simp add: PlayCard_def Let_def played_def split_beta)
qed

lemma turn_timeout_success:
  assumes i: "CurrentTurnIdx g < length (TurnOrder g)"
    and h: "0 < len (hand_slice g (TurnOrder g ! CurrentTurnIdx g))"
  shows "turn_timeout grow g room =
         (let p = TurnOrder g ! CurrentTurnIdx g;
              g' = (played grow g p)\<lparr>CurrentTurnIdx := spec_next_seat (played grow g p)\<rparr>
          in Some (Done ([Broadcast room (CardPlayed p (slice_nth (Mem g) (hand_slice g p) 0) (len (Pile g'))),
                Broadcast room (TurnChanged (TurnOrder g' ! CurrentTurnIdx g')),
                StartTurnTimer room], g')))"
proof -
  let ?g3 = "played grow g (TurnOrder g ! CurrentTurnIdx g)"
  have "CurrentTurnIdx ?g3 < length (TurnOrder ?g3)" using i by (simp add: played_def Let_def)
  from advanceTurn_total [OF this] show ?thesis
    using i h by (simp add: turn_timeout_def Let_def played_def split_beta)
qed

text \<open>
  C8. In every game state whose turn index names a seat: if \<open>p\<close> is not the player at the
  turn index, or the hand of \<open>p\<close> is empty, then PlayCard returns an error and the state it
  leaves is the state it found; a play succeeds exactly for the player at the turn index
  holding a card, so two plays attempted in one state cannot both succeed unless they
  are by the same player. (With a turn index beyond the seats, which no reachable state
  has, the Go code panics on the index instead of returning an error.)
\<close>

theorem PlayCard_only_in_turn:
  assumes "CurrentTurnIdx g < length (TurnOrder g)"
  shows "(TurnOrder g ! CurrentTurnIdx g \<noteq> p \<or> len (hand_slice g p) = 0
            \<longrightarrow> (\<exists>e. PlayCard grow g p = Some (Done (Inl e, g)))) \<and>
         ((\<exists>c g'. PlayCard grow g p = Some (Done (Inr c, g')))
            \<longleftrightarrow> TurnOrder g ! CurrentTurnIdx g = p \<and> 0 < len (hand_slice g p)) \<and>
         ((\<exists>c g'. PlayCard grow g p = Some (Done (Inr c, g'))) \<and>
          (\<exists>c g'. PlayCard grow g q = Some (Done (Inr c, g'))) \<longrightarrow> p = q)"
proof -
  have err: "\<And>p. TurnOrder g ! CurrentTurnIdx g \<noteq> p \<or> len (hand_slice g p) = 0
      \<Longrightarrow> \<exists>e. PlayCard grow g p = Some (Done (Inl e, g))"
    using PlayCard_error [OF assms] by blast
  have ok: "\<And>p. TurnOrder g ! CurrentTurnIdx g = p \<and> 0 < len (hand_slice g p)
      \<Longrightarrow> \<exists>c g'. PlayCard grow g p = Some (Done (Inr c, g'))"
    using PlayCard_success [OF assms] by blast
  have iff: "\<And>p. (\<exists>c g'. PlayCard grow g p = Some (Done (Inr c, g')))
      \<longleftrightarrow> TurnOrder g ! CurrentTurnIdx g = p \<and> 0 < len (hand_slice g p)"
  proof
    fix p assume won: "\<exists>c g'. PlayCard grow g p = Some (Done (Inr c, g'))"
    show "TurnOrder g ! CurrentTurnIdx g = p \<and> 0 < len (hand_slice g p)"
    proof (rule ccontr)
      assume "\<not> (TurnOrder g ! CurrentTurnIdx g = p \<and> 0 < len (hand_slice g p))"
      then have "TurnOrder g ! CurrentTurnIdx g \<noteq> p \<or> len (hand_slice g p) = 0" by auto
      from err [OF this] won show False by auto
    qed
  next
    fix p assume "TurnOrder g ! CurrentTurnIdx g = p \<and> 0 < len (hand_slice g p)"
    then show "\<exists>c g'. PlayCard grow g p = Some (Done (Inr c, g'))" by (rule ok)
  qed
  show ?thesis using err [of p] iff [of p] iff [of q] by blast
qed

theorem PlayCard_only_in_turn_witness:
  "CurrentTurnIdx demo_game < length (TurnOrder demo_game) \<and>
   TurnOrder demo_game ! CurrentTurnIdx demo_game \<noteq> ''c'' \<and>
   (\<exists>e. PlayCard (\<lambda>c n. n) demo_game ''c'' = Some (Done (Inl e, demo_game))) \<and>
   (\<exists>c g'. PlayCard (\<lambda>c n. n) demo_game ''a'' = Some (Done (Inr c, g')))"
proof -
  have h: "CurrentTurnIdx demo_game < length (TurnOrder demo_game)"
    by (simp add: demo_game_def)
  have c: "TurnOrder demo_game ! CurrentTurnIdx demo_game \<noteq> ''c''"
    by (simp add: demo_game_def)
  have a: "TurnOrder demo_game ! CurrentTurnIdx demo_game = ''a'' \<and>
           0 < len (hand_slice demo_game ''a'')"
    by (simp add: demo_game_def hand_slice_def)
  from PlayCard_only_in_turn [OF h, of "''c''" "\<lambda>c n. n"] PlayCard_only_in_turn [OF h, of "''a''" "\<lambda>c n. n"]
  show ?thesis using h c a by blast
qed

section \<open>The timeout plays the card as PlayCard does\<close>

lemma played_PendingSlaps: "PendingSlaps (played grow g p) = PendingSlaps g"
  by (simp add: played_def Let_def)

text \<open>
  C9. When the turn timeout fires and the current player's hand is not empty, the state
  the timer leaves is the state a manual PlayCard by that player leaves (hands, pile,
  slap window, pending slap attempts, turn index: the whole state), the card broadcast is
  the card PlayCard returns, and the timer for the next turn is started. PlayCard also
  empties the list of pending slap attempts, which the timer does not touch; the list is
  empty in every state the engine produces (NewGame and PlayCard set it to the empty
  list and nothing appends to it), which is the third hypothesis.
\<close>

theorem timeout_plays_like_PlayCard:
  assumes i: "CurrentTurnIdx g < length (TurnOrder g)"
    and h: "0 < len (hand_slice g (TurnOrder g ! CurrentTurnIdx g))"
    and e: "PendingSlaps g = []"
  shows "\<exists>c g'. PlayCard grow g (TurnOrder g ! CurrentTurnIdx g) = Some (Done (Inr c, g')) \<and>
           turn_timeout grow g room =
             Some (Done ([Broadcast room (CardPlayed (TurnOrder g ! CurrentTurnIdx g) c (len (Pile g'))),
                          Broadcast room (TurnChanged (TurnOrder g' ! CurrentTurnIdx g')),
                          StartTurnTimer room], g'))"
proof -
  let ?p = "TurnOrder g ! CurrentTurnIdx g"
  have same: "(played grow g ?p)\<lparr>PendingSlaps := []\<rparr> = played grow g ?p"
    using e by (simp add: PendingSlaps_same played_PendingSlaps)
  show ?thesis
    using PlayCard_success [OF i refl h, of grow] turn_timeout_success [OF i h, of grow room]
    by (simp add: same Let_def)
qed

theorem timeout_plays_like_PlayCard_witness:
  "CurrentTurnIdx demo_game < length (TurnOrder demo_game) \<and>
   0 < len (hand_slice demo_game (TurnOrder demo_game ! CurrentTurnIdx demo_game)) \<and>
   PendingSlaps demo_game = [] \<and>
   (\<exists>c g'. PlayCard (\<lambda>c n. n) demo_game ''a'' = Some (Done (Inr c, g')) \<and>
        turn_timeout (\<lambda>c n. n) demo_game ''ROOM'' =
          Some (Done ([Broadcast ''ROOM'' (CardPlayed ''a'' c (len (Pile g'))),
                       Broadcast ''ROOM'' (TurnChanged (TurnOrder g' ! CurrentTurnIdx g')),
                       StartTurnTimer ''ROOM''], g')))"
proof -
  have i: "CurrentTurnIdx demo_game < length (TurnOrder demo_game)"
    by (simp add: demo_game_def)
  have h: "0 < len (hand_slice demo_game (TurnOrder demo_game ! CurrentTurnIdx demo_game))"
    by (simp add: demo_game_def hand_slice_def)
  have e: "PendingSlaps demo_game = []" by (simp add: demo_game_def)
  have a: "TurnOrder demo_game ! CurrentTurnIdx demo_game = ''a''" by (simp add: demo_game_def)
  from timeout_plays_like_PlayCard [OF i h e, of "\<lambda>c n. n" "''ROOM''"] i h e
  show ?thesis unfolding a by blast
qed

section \<open>ProcessSlap, branch by branch\<close>

lemma counted_frame [simp]:
  "in_cooldown (counted g) p now = in_cooldown g p now"
  "LastSlapTime (counted g) = LastSlapTime g"
  "hand_slice (counted g) p = hand_slice g p"
  "Mem (counted g) = Mem g" "Pile (counted g) = Pile g" "Rules (counted g) = Rules g"
  "canSlapIn (counted g) p = canSlapIn g p"
  "SlapCooldownMs (counted g) = SlapCooldownMs g"
  "cooldown_window (counted g) = cooldown_window g"
  by (simp_all add: counted_def in_cooldown_def cooldown_window_def hand_slice_def
      canSlapIn_def split: option.splits)

lemma stamped_frame [simp]:
  "hand_slice (stamped g p now) q = hand_slice g q"
  "Mem (stamped g p now) = Mem g" "Pile (stamped g p now) = Pile g"
  "Rules (stamped g p now) = Rules g"
  "canSlapIn (stamped g p now) q = canSlapIn g q"
  "SlapCooldownMs (stamped g p now) = SlapCooldownMs g"
  "LastSlapTime (stamped g p now) p = Some now"
  "TurnOrder (stamped g p now) = TurnOrder g"
  "CurrentTurnIdx (stamped g p now) = CurrentTurnIdx g"
  "PlayerHands (stamped g p now) = PlayerHands g"
  "BurnPenalty (stamped g p now) = BurnPenalty g"
  "SlapInCounts (stamped g p now) = SlapInCounts g"
  "PendingSlaps (stamped g p now) = PendingSlaps g"
  "SlapWindowOpen (stamped g p now) = SlapWindowOpen g"
  "SuccessfulSlaps (Stats (stamped g p now)) = SuccessfulSlaps (Stats g)"
  "CardsBurned (Stats (stamped g p now)) = CardsBurned (Stats g)"
  by (simp_all add: stamped_def counted_def hand_slice_def canSlapIn_def)

lemma hand_slice_SlapInCounts [simp]:
  "hand_slice (g\<lparr>SlapInCounts := c\<rparr>) q = hand_slice g q"
  by (simp add: hand_slice_def)

lemma ProcessSlap_cooldown:
  "in_cooldown g p now \<Longrightarrow>
   ProcessSlap grow now g p st ct = Done (slap_failed p ''cooldown'' 0, counted g)"
  using counted_frame(1) [of g p now]
  by (simp add: ProcessSlap_def Let_def counted_def)

lemma ProcessSlap_after_cooldown:
  "\<not> in_cooldown g p now \<Longrightarrow>
   ProcessSlap grow now g p st ct =
     (let g2 = stamped g p now;
          playerHasCards = (len (hand_slice g p) > 0);
          reason = CheckSlap (Rules g) (pile_cards g)
      in if \<not> playerHasCards \<and> \<not> canSlapIn g p
           then Done (slap_failed p ''eliminated'' 0, g2)
         else if \<not> playerHasCards \<and> reason = SlapReasonInvalid
           then Done (slap_failed p reason 0, g2)
         else if reason = SlapReasonInvalid then
           (case applyBurnPenalty grow g2 p of
              Panic \<Rightarrow> Panic
            | Done (burnCount, g3) \<Rightarrow>
                Done (slap_failed p reason burnCount,
                      g3\<lparr>Stats := (Stats g3)\<lparr>CardsBurned := (CardsBurned (Stats g3))
                        (p \<mapsto> count_of (CardsBurned (Stats g3)) p + burnCount)\<rparr>\<rparr>))
         else
           let g3 = (if \<not> playerHasCards
                     then g2\<lparr>SlapInCounts := (SlapInCounts g2)
                             (p \<mapsto> count_of (SlapInCounts g2) p + 1)\<rparr>
                     else g2);
               ap = append_slice grow (Mem g) (hand_slice g p) (pile_cards g);
               g4 = g3\<lparr>Mem := fst ap, PlayerHands := (PlayerHands g3)(p \<mapsto> snd ap)\<rparr>;
               mk = make_slice (fst ap) 52;
               g5 = g4\<lparr>Mem := fst mk, Pile := snd mk, SlapWindowOpen := False,
                       Stats := (Stats g4)\<lparr>SuccessfulSlaps := (SuccessfulSlaps (Stats g4))
                         (p \<mapsto> count_of (SuccessfulSlaps (Stats g4)) p + 1)\<rparr>\<rparr>;
               g6 = (case seat_from 0 (TurnOrder g) p of
                       None \<Rightarrow> g5
                     | Some i \<Rightarrow> g5\<lparr>CurrentTurnIdx := i\<rparr>)
           in Done (\<lparr>PlayerID = p, Success = True, Reason = reason,
                     CardsWon = int (len (Pile g)), BurnPenalty_p = 0\<rparr>, g6))"
proof -
  assume nc: "\<not> in_cooldown g p now"
  have c: "g\<lparr>Stats := (Stats g)\<lparr>TotalSlaps := TotalSlaps (Stats g) + 1\<rparr>\<rparr> = counted g"
    by (simp add: counted_def)
  have s: "(counted g)\<lparr>LastSlapTime := (LastSlapTime (counted g))(p \<mapsto> now)\<rparr> = stamped g p now"
    by (simp add: stamped_def)
  show ?thesis
    unfolding ProcessSlap_def c Let_def s using nc
    by (simp add: pile_cards_def split_beta split: option.splits outcome.splits)
qed

lemma applyBurnPenalty_frame:
  "applyBurnPenalty grow g p = Done (b, g') \<Longrightarrow>
   \<exists>ph m pl. g' = g\<lparr>PlayerHands := ph, Mem := m, Pile := pl\<rparr>"
proof -
  assume a: "applyBurnPenalty grow g p = Done (b, g')"
  show ?thesis
  proof (cases "len (hand_slice g p) = 0")
    case True
    with a have "g' = g" by (simp add: applyBurnPenalty_def Let_def)
    then have "g' = g\<lparr>PlayerHands := PlayerHands g, Mem := Mem g, Pile := Pile g\<rparr>" by simp
    then show ?thesis by blast
  next
    case False
    with a show ?thesis
      by (auto simp: applyBurnPenalty_def Let_def split_beta split: if_splits)
  qed
qed

section \<open>Cooldown\<close>

lemma wrap64_id:
  "- 9223372036854775808 \<le> x \<Longrightarrow> x < 9223372036854775808 \<Longrightarrow> wrap64 x = x"
  by (simp add: wrap64_def)

text \<open>
  The product does not wrap for a setting of at most 9223372036854 milliseconds in
  absolute value; \<^verbatim>\<open>Settings.FromProtocol\<close> and \<^verbatim>\<open>Settings.Validate\<close> keep the setting
  between 0 and 1000. At 9223372036855 it wraps to a negative window.
\<close>

lemma cooldown_window_plain:
  "- 9223372036854 \<le> SlapCooldownMs g \<Longrightarrow> SlapCooldownMs g \<le> 9223372036854 \<Longrightarrow>
   cooldown_window g = SlapCooldownMs g * 1000000"
  unfolding cooldown_window_def by (rule wrap64_id) simp_all

lemma cooldown_window_wraps:
  "cooldown_window (g\<lparr>SlapCooldownMs := 9223372036855\<rparr>) = - 9223372036854551616"
  by (simp add: cooldown_window_def wrap64_def)

lemma ProcessSlap_records_time:
  assumes nc: "\<not> in_cooldown g p now"
    and r: "ProcessSlap grow now g p st ct = Done (res, g')"
  shows "LastSlapTime g' p = Some now \<and> SlapCooldownMs g' = SlapCooldownMs g"
proof -
  have burn: "\<And>b g3. applyBurnPenalty grow (stamped g p now) p = Done (b, g3) \<Longrightarrow>
      LastSlapTime g3 p = Some now \<and> SlapCooldownMs g3 = SlapCooldownMs g"
    using applyBurnPenalty_frame by fastforce
  from r show ?thesis
    unfolding ProcessSlap_after_cooldown [OF nc] Let_def
    by (auto split: if_splits outcome.splits option.splits dest: burn)
qed

lemma slaps_in_cooldown:
  "LastSlapTime g p = Some t0 \<Longrightarrow> \<forall>t\<in>set ts. t - t0 < cooldown_window g \<Longrightarrow>
   slaps grow g p ts =
     Done (map (\<lambda>t. slap_failed p ''cooldown'' 0) ts,
           g\<lparr>Stats := (Stats g)\<lparr>TotalSlaps := TotalSlaps (Stats g) + int (length ts)\<rparr>\<rparr>)"
proof (induction ts arbitrary: g)
  case Nil
  then show ?case by simp
next
  case (Cons t ts)
  then have cd: "in_cooldown g p t" by (simp add: in_cooldown_def)
  have "LastSlapTime (counted g) p = Some t0" using Cons.prems(1) by simp
  moreover have "\<forall>t\<in>set ts. t - t0 < cooldown_window (counted g)"
    using Cons.prems(2) by simp
  ultimately have "slaps grow (counted g) p ts =
     Done (map (\<lambda>t. slap_failed p ''cooldown'' 0) ts,
           (counted g)\<lparr>Stats := (Stats (counted g))\<lparr>TotalSlaps := TotalSlaps (Stats (counted g)) + int (length ts)\<rparr>\<rparr>)"
    by (rule Cons.IH)
  then show ?case
    by (simp add: ProcessSlap_cooldown [OF cd] counted_def add.assoc)
qed

text \<open>
  C5. A slap attempt that comes less than the cooldown window after the player's recorded
  last attempt is rejected: the result is a non-success with reason \<open>cooldown\<close> and burn
  penalty 0, and the state differs from the one before only in the total-attempt tally
  (hands, pile, turn index, last-attempt time and per-player statistics are as they
  were). So after a first attempt at \<open>t0\<close> that passed the cooldown
  test, every further attempt of the same player at a time within the window of \<open>t0\<close> is
  rejected with \<open>cooldown\<close>, whatever the pile, and only the tally grows. The window is
  the int64 product that the code computes; for a setting of at most 9223372036854
  milliseconds in absolute value, which covers the range 0 to 1000 that the room settings
  allow, it is SlapCooldownMs milliseconds, and the test is that the attempt comes less
  than SlapCooldownMs milliseconds after the recorded last attempt.
\<close>

theorem cooldown_rejects:
  "(in_cooldown g p now \<longrightarrow>
      ProcessSlap grow now g p st ct =
        Done (\<lparr>PlayerID = p, Success = False, Reason = ''cooldown'', CardsWon = 0,
               BurnPenalty_p = 0\<rparr>,
              g\<lparr>Stats := (Stats g)\<lparr>TotalSlaps := TotalSlaps (Stats g) + 1\<rparr>\<rparr>)) \<and>
   (\<not> in_cooldown g p t0 \<and> ProcessSlap grow t0 g p st ct = Done (r0, g0) \<and>
    (\<forall>t\<in>set ts. t - t0 < cooldown_window g) \<longrightarrow>
      slaps grow g0 p ts =
        Done (map (\<lambda>t. \<lparr>PlayerID = p, Success = False, Reason = ''cooldown'', CardsWon = 0,
                          BurnPenalty_p = 0\<rparr>) ts,
              g0\<lparr>Stats := (Stats g0)\<lparr>TotalSlaps := TotalSlaps (Stats g0) + int (length ts)\<rparr>\<rparr>)) \<and>
   (- 9223372036854 \<le> SlapCooldownMs g \<and> SlapCooldownMs g \<le> 9223372036854 \<longrightarrow>
      cooldown_window g = SlapCooldownMs g * 1000000 \<and>
      (in_cooldown g p now \<longleftrightarrow>
         (\<exists>lastSlap. LastSlapTime g p = Some lastSlap \<and>
                     now - lastSlap < SlapCooldownMs g * 1000000)))"
proof (intro conjI impI)
  assume "in_cooldown g p now"
  from ProcessSlap_cooldown [OF this]
  show "ProcessSlap grow now g p st ct =
        Done (\<lparr>PlayerID = p, Success = False, Reason = ''cooldown'', CardsWon = 0,
               BurnPenalty_p = 0\<rparr>,
              g\<lparr>Stats := (Stats g)\<lparr>TotalSlaps := TotalSlaps (Stats g) + 1\<rparr>\<rparr>)"
    by (simp add: slap_failed_def counted_def)
next
  assume a: "\<not> in_cooldown g p t0 \<and> ProcessSlap grow t0 g p st ct = Done (r0, g0) \<and>
    (\<forall>t\<in>set ts. t - t0 < cooldown_window g)"
  then have l: "LastSlapTime g0 p = Some t0" and c: "SlapCooldownMs g0 = SlapCooldownMs g"
    using ProcessSlap_records_time by blast+
  from a have w: "\<forall>t\<in>set ts. t - t0 < cooldown_window g0"
    by (simp add: cooldown_window_def c)
  from l w have "slaps grow g0 p ts =
     Done (map (\<lambda>t. slap_failed p ''cooldown'' 0) ts,
           g0\<lparr>Stats := (Stats g0)\<lparr>TotalSlaps := TotalSlaps (Stats g0) + int (length ts)\<rparr>\<rparr>)"
    by (rule slaps_in_cooldown)
  then show "slaps grow g0 p ts =
        Done (map (\<lambda>t. \<lparr>PlayerID = p, Success = False, Reason = ''cooldown'', CardsWon = 0,
                          BurnPenalty_p = 0\<rparr>) ts,
              g0\<lparr>Stats := (Stats g0)\<lparr>TotalSlaps := TotalSlaps (Stats g0) + int (length ts)\<rparr>\<rparr>)"
    by (simp add: slap_failed_def)
next
  assume b: "- 9223372036854 \<le> SlapCooldownMs g \<and> SlapCooldownMs g \<le> 9223372036854"
  then show plain: "cooldown_window g = SlapCooldownMs g * 1000000"
    by (simp add: cooldown_window_plain)
  show "in_cooldown g p now \<longleftrightarrow>
         (\<exists>lastSlap. LastSlapTime g p = Some lastSlap \<and>
                     now - lastSlap < SlapCooldownMs g * 1000000)"
    by (simp add: in_cooldown_def plain split: option.splits)
qed

theorem cooldown_rejects_witness:
  "SlapCooldownMs (demo_game\<lparr>LastSlapTime := [''a'' \<mapsto> 0]\<rparr>) = 200 \<and>
   cooldown_window (demo_game\<lparr>LastSlapTime := [''a'' \<mapsto> 0]\<rparr>) = 200000000 \<and>
   in_cooldown (demo_game\<lparr>LastSlapTime := [''a'' \<mapsto> 0]\<rparr>) ''a'' 100000000 \<and>
   ProcessSlap (\<lambda>c n. n) 100000000 (demo_game\<lparr>LastSlapTime := [''a'' \<mapsto> 0]\<rparr>) ''a'' 0 0 =
     Done (\<lparr>PlayerID = ''a'', Success = False, Reason = ''cooldown'', CardsWon = 0,
            BurnPenalty_p = 0\<rparr>,
           demo_game\<lparr>LastSlapTime := [''a'' \<mapsto> 0],
                     Stats := \<lparr>TotalSlaps = 1, SuccessfulSlaps = Map.empty,
                               CardsBurned = Map.empty\<rparr>\<rparr>) \<and>
   \<not> in_cooldown demo_game ''b'' 0 \<and>
   ProcessSlap (\<lambda>c n. n) 0 demo_game ''b'' 0 0 =
     Done (slap_failed ''b'' ''eliminated'' 0, stamped demo_game ''b'' 0) \<and>
   slaps (\<lambda>c n. n) (stamped demo_game ''b'' 0) ''b'' [50000000, 150000000] =
     Done ([slap_failed ''b'' ''cooldown'' 0, slap_failed ''b'' ''cooldown'' 0],
           (stamped demo_game ''b'' 0)\<lparr>Stats := \<lparr>TotalSlaps = 3, SuccessfulSlaps = Map.empty,
                                                  CardsBurned = Map.empty\<rparr>\<rparr>)"
proof -
  let ?g = "demo_game\<lparr>LastSlapTime := [''a'' \<mapsto> 0]\<rparr>"
  have ms: "SlapCooldownMs ?g = 200" by (simp add: demo_game_def)
  from cooldown_rejects [where g = ?g and p = "''a''" and now = 100000000,
      THEN conjunct2, THEN conjunct2] ms
  have win: "cooldown_window ?g = 200000000"
    and cd: "in_cooldown ?g ''a'' 100000000"
    by (simp_all add: demo_game_def)
  have nc: "\<not> in_cooldown demo_game ''b'' 0"
    by (simp add: in_cooldown_def demo_game_def)
  have first: "ProcessSlap (\<lambda>c n. n) 0 demo_game ''b'' 0 0 =
     Done (slap_failed ''b'' ''eliminated'' 0, stamped demo_game ''b'' 0)"
    by (simp add: ProcessSlap_after_cooldown [OF nc] Let_def)
       (simp add: demo_game_def hand_slice_def canSlapIn_def)
  have window: "\<forall>t\<in>set [50000000, 150000000]. t - 0 < cooldown_window demo_game"
    by (simp add: cooldown_window_def wrap64_def demo_game_def)
  from cooldown_rejects [where g = ?g and p = "''a''" and now = 100000000
      and grow = "\<lambda>c n. n" and st = 0 and ct = 0, THEN conjunct1] cd
  have one: "ProcessSlap (\<lambda>c n. n) 100000000 ?g ''a'' 0 0 =
     Done (\<lparr>PlayerID = ''a'', Success = False, Reason = ''cooldown'', CardsWon = 0,
            BurnPenalty_p = 0\<rparr>,
           ?g\<lparr>Stats := (Stats ?g)\<lparr>TotalSlaps := TotalSlaps (Stats ?g) + 1\<rparr>\<rparr>)"
    by blast
  from cooldown_rejects [where g = demo_game and p = "''b''" and ?t0.0 = 0
      and grow = "\<lambda>c n. n" and st = 0 and ct = 0
      and ?r0.0 = "slap_failed ''b'' ''eliminated'' 0" and ?g0.0 = "stamped demo_game ''b'' 0"
      and ts = "[50000000, 150000000]", THEN conjunct2] nc first window
  have many: "slaps (\<lambda>c n. n) (stamped demo_game ''b'' 0) ''b'' [50000000, 150000000] =
     Done (map (\<lambda>t. \<lparr>PlayerID = ''b'', Success = False, Reason = ''cooldown'', CardsWon = 0,
                       BurnPenalty_p = 0\<rparr>) [50000000, 150000000 :: int],
           (stamped demo_game ''b'' 0)\<lparr>Stats := (Stats (stamped demo_game ''b'' 0))
              \<lparr>TotalSlaps := TotalSlaps (Stats (stamped demo_game ''b'' 0))
                 + int (length [50000000, 150000000 :: int])\<rparr>\<rparr>)"
    by blast
  have s1: "?g\<lparr>Stats := (Stats ?g)\<lparr>TotalSlaps := TotalSlaps (Stats ?g) + 1\<rparr>\<rparr> =
     demo_game\<lparr>LastSlapTime := [''a'' \<mapsto> 0],
               Stats := \<lparr>TotalSlaps = 1, SuccessfulSlaps = Map.empty, CardsBurned = Map.empty\<rparr>\<rparr>"
    by (simp add: demo_game_def)
  have s2: "(Stats (stamped demo_game ''b'' 0))
              \<lparr>TotalSlaps := TotalSlaps (Stats (stamped demo_game ''b'' 0))
                 + int (length [50000000, 150000000 :: int])\<rparr> =
            \<lparr>TotalSlaps = 3, SuccessfulSlaps = Map.empty, CardsBurned = Map.empty\<rparr>"
    by (simp add: stamped_def counted_def demo_game_def)
  show ?thesis using ms win cd nc first one many unfolding s1 s2
    by (simp add: slap_failed_def)
qed

section \<open>A valid slap wins the pile\<close>

lemma cards_of_extend: "arr s < length m \<Longrightarrow> cards_of (m @ ms) s = cards_of m s"
  by (simp add: cards_of_def array_at_def nth_append)

lemma seat_from_found:
  "p \<in> set xs \<Longrightarrow> \<exists>i. seat_from k xs p = Some (k + i) \<and> i < length xs \<and> xs ! i = p"
proof (induction xs arbitrary: k)
  case Nil
  then show ?case by simp
next
  case (Cons x xs)
  show ?case
  proof (cases "x = p")
    case True
    then show ?thesis by (intro exI [of _ 0]) simp
  next
    case False
    with Cons.prems have "p \<in> set xs" by simp
    from Cons.IH [OF this, of "k + 1"] obtain i where
      "seat_from (k + 1) xs p = Some (k + 1 + i)" "i < length xs" "xs ! i = p" by blast
    with False show ?thesis by (intro exI [of _ "Suc i"]) simp
  qed
qed

text \<open>The winning branch, field by field.\<close>

lemma ProcessSlap_win:
  assumes nc: "\<not> in_cooldown g p now"
    and el: "0 < len (hand_slice g p) \<or> canSlapIn g p"
    and ok: "CheckSlap (Rules g) (pile_cards g) \<noteq> SlapReasonInvalid"
    and ap: "append_slice grow (Mem g) (hand_slice g p) (pile_cards g) = (m1, h1)"
  shows "\<exists>g'. ProcessSlap grow now g p st ct =
            Done (\<lparr>PlayerID = p, Success = True, Reason = CheckSlap (Rules g) (pile_cards g),
                   CardsWon = int (len (Pile g)), BurnPenalty_p = 0\<rparr>, g') \<and>
          PlayerHands g' = (PlayerHands g)(p \<mapsto> h1) \<and>
          PendingSlaps g' = PendingSlaps g \<and>
          Mem g' = m1 @ [replicate 52 zero_Card] \<and>
          Pile g' = \<lparr>arr = length m1, off = 0, len = 0\<rparr> \<and>
          \<not> SlapWindowOpen g' \<and>
          SuccessfulSlaps (Stats g') =
            (SuccessfulSlaps (Stats g))(p \<mapsto> count_of (SuccessfulSlaps (Stats g)) p + 1) \<and>
          TurnOrder g' = TurnOrder g \<and>
          CurrentTurnIdx g' =
            (case seat_from 0 (TurnOrder g) p of None \<Rightarrow> CurrentTurnIdx g | Some i \<Rightarrow> i) \<and>
          SlapInCounts g' =
            (if 0 < len (hand_slice g p) then SlapInCounts g
             else (SlapInCounts g)(p \<mapsto> count_of (SlapInCounts g) p + 1))"
proof (cases "0 < len (hand_slice g p)")
  case True
  then show ?thesis
    unfolding ProcessSlap_after_cooldown [OF nc] Let_def
    using ok by (simp add: ap make_slice_def split: option.splits)
next
  case False
  with el have "canSlapIn g p" by simp
  with False show ?thesis
    unfolding ProcessSlap_after_cooldown [OF nc] Let_def
    using ok by (simp add: ap make_slice_def split: option.splits)
qed

text \<open>
  C3. Whenever ProcessSlap is applied for a seated player who is allowed to slap (not
  in cooldown, and holding cards or eligible to slap back in) and CheckSlap of the pile
  is not \<open>invalid\<close>, the result is a success whose cards-won count is the pile size, the
  whole pile is appended to that player's hand, the pile is empty, the slap window is
  closed, the player's successful-slap count has grown by one, and the turn index is
  that player's seat. The hand and the pile are slices inside their arrays, as every
  Go slice is (lemma \<open>reachable_inv\<close>).
\<close>

theorem valid_slap_wins_pile:
  assumes wfh: "wf_slice (Mem g) (hand_slice g p)" and wfp: "wf_slice (Mem g) (Pile g)"
    and nc: "\<not> in_cooldown g p now"
    and el: "hand g p \<noteq> [] \<or> canSlapIn g p"
    and ok: "CheckSlap (Rules g) (pile_cards g) \<noteq> SlapReasonInvalid"
    and seat: "p \<in> set (TurnOrder g)"
  shows "\<exists>res g'. ProcessSlap grow now g p st ct = Done (res, g') \<and>
           Success res \<and> PlayerID res = p \<and>
           Reason res = CheckSlap (Rules g) (pile_cards g) \<and>
           CardsWon res = int (length (pile_cards g)) \<and>
           hand g' p = hand g p @ pile_cards g \<and>
           pile_cards g' = [] \<and>
           \<not> SlapWindowOpen g' \<and>
           count_of (SuccessfulSlaps (Stats g')) p = count_of (SuccessfulSlaps (Stats g)) p + 1 \<and>
           TurnOrder g' = TurnOrder g \<and>
           CurrentTurnIdx g' < length (TurnOrder g') \<and>
           TurnOrder g' ! CurrentTurnIdx g' = p"
proof -
  obtain m1 h1 where ap: "append_slice grow (Mem g) (hand_slice g p) (pile_cards g) = (m1, h1)"
    by (cases "append_slice grow (Mem g) (hand_slice g p) (pile_cards g)")
  from append_slice_cards [OF wfh ap] have h1: "cards_of m1 h1 = hand g p @ pile_cards g"
    by (simp add: hand_def)
  from append_slice_wf(1) [OF wfh ap] have a1: "arr h1 < length m1"
    by (simp add: wf_slice_def)
  from seat_from_found [OF seat, of 0] obtain i where
    i: "seat_from 0 (TurnOrder g) p = Some i" "i < length (TurnOrder g)" "TurnOrder g ! i = p"
    by auto
  have el': "0 < len (hand_slice g p) \<or> canSlapIn g p"
    using el length_cards_of [OF wfh] by (cases "hand g p") (auto simp: hand_def)
  have won: "int (len (Pile g)) = int (length (pile_cards g))"
    using length_cards_of [OF wfp] by (simp add: pile_cards_def)
  from ProcessSlap_win [OF nc el' ok ap, of st ct] obtain g' where
    run: "ProcessSlap grow now g p st ct =
            Done (\<lparr>PlayerID = p, Success = True, Reason = CheckSlap (Rules g) (pile_cards g),
                   CardsWon = int (len (Pile g)), BurnPenalty_p = 0\<rparr>, g')"
    and ph: "PlayerHands g' = (PlayerHands g)(p \<mapsto> h1)" and mem: "Mem g' = m1 @ [replicate 52 zero_Card]"
    and pl: "Pile g' = \<lparr>arr = length m1, off = 0, len = 0\<rparr>"
    and sw: "\<not> SlapWindowOpen g'"
    and st: "SuccessfulSlaps (Stats g') =
            (SuccessfulSlaps (Stats g))(p \<mapsto> count_of (SuccessfulSlaps (Stats g)) p + 1)"
    and ord: "TurnOrder g' = TurnOrder g"
    and idx: "CurrentTurnIdx g' =
            (case seat_from 0 (TurnOrder g) p of None \<Rightarrow> CurrentTurnIdx g | Some i \<Rightarrow> i)"
    by blast
  have "hand g' p = cards_of (m1 @ [replicate 52 zero_Card]) h1"
    by (simp add: hand_def hand_slice_def ph mem)
  also have "\<dots> = cards_of m1 h1" using a1 by (rule cards_of_extend)
  finally have hand': "hand g' p = hand g p @ pile_cards g" using h1 by simp
  have pile': "pile_cards g' = []" by (simp add: pile_cards_def pl cards_of_def)
  have stat: "count_of (SuccessfulSlaps (Stats g')) p = count_of (SuccessfulSlaps (Stats g)) p + 1"
    by (simp add: st count_of_def)
  have idx': "CurrentTurnIdx g' = i" using idx i(1) by simp
  show ?thesis
    unfolding run using hand' pile' stat sw ord idx' i(2,3) won by simp
qed

theorem valid_slap_wins_pile_witness:
  "wf_slice (Mem demo_game_jack) (hand_slice demo_game_jack ''a'') \<and>
   wf_slice (Mem demo_game_jack) (Pile demo_game_jack) \<and>
   \<not> in_cooldown demo_game_jack ''a'' 0 \<and>
   hand demo_game_jack ''a'' \<noteq> [] \<and>
   CheckSlap (Rules demo_game_jack) (pile_cards demo_game_jack) = ''jack'' \<and>
   ''a'' \<in> set (TurnOrder demo_game_jack) \<and>
   (\<exists>res g'. ProcessSlap (\<lambda>c n. n) 0 demo_game_jack ''a'' 0 0 = Done (res, g') \<and>
      Success res \<and> Reason res = ''jack'' \<and> CardsWon res = 3 \<and>
      hand g' ''a'' = hand demo_game_jack ''a'' @ pile_cards demo_game_jack \<and>
      pile_cards g' = [] \<and> \<not> SlapWindowOpen g' \<and>
      TurnOrder g' ! CurrentTurnIdx g' = ''a'')"
proof -
  have wfh: "wf_slice (Mem demo_game_jack) (hand_slice demo_game_jack ''a'')"
    by (simp add: demo_game_jack_def demo_game_def wf_slice_def hand_slice_def)
  have wfp: "wf_slice (Mem demo_game_jack) (Pile demo_game_jack)"
    by (simp add: demo_game_jack_def demo_game_def wf_slice_def)
  have nc: "\<not> in_cooldown demo_game_jack ''a'' 0"
    by (simp add: demo_game_jack_def demo_game_def in_cooldown_def)
  have h: "hand demo_game_jack ''a'' \<noteq> []"
    by (simp add: demo_game_jack_def demo_game_def hand_def hand_slice_def cards_of_def array_at_def)
  have pc: "pile_cards demo_game_jack =
      [\<lparr>Suit = ''clubs'', Rank = ''2''\<rparr>, \<lparr>Suit = ''diamonds'', Rank = ''5''\<rparr>,
       \<lparr>Suit = ''hearts'', Rank = ''J''\<rparr>]"
    by (simp add: demo_game_jack_def demo_game_def pile_cards_def cards_of_def array_at_def)
  have ok: "CheckSlap (Rules demo_game_jack) (pile_cards demo_game_jack) = ''jack''"
    unfolding pc by (simp add: CheckSlap_def IsJack_def SlapReasonJack_def)
  then have ok': "CheckSlap (Rules demo_game_jack) (pile_cards demo_game_jack) \<noteq> SlapReasonInvalid"
    by (simp add: SlapReasonInvalid_def)
  have seat: "''a'' \<in> set (TurnOrder demo_game_jack)"
    by (simp add: demo_game_jack_def demo_game_def)
  from valid_slap_wins_pile [OF wfh wfp nc disjI1 [OF h] ok' seat, of "\<lambda>c n. n" 0 0]
  show ?thesis using wfh wfp nc h ok seat by (auto simp: pc)
qed

section \<open>Slapping with an empty hand\<close>

text \<open>
  C6 as stated says that a player with zero cards who may not slap back in always gets
  the reason \<open>eliminated\<close>. The cooldown test comes first in ProcessSlap: a second
  attempt of such a player inside the cooldown window of the first gets \<open>cooldown\<close>.
\<close>

theorem zero_cards_cooldown_counterexample:
  "\<not> (\<forall>grow now g p st ct.
        len (hand_slice g p) = 0 \<and> \<not> canSlapIn g p \<longrightarrow>
        (\<exists>res g'. ProcessSlap grow now g p st ct = Done (res, g') \<and>
                  \<not> Success res \<and> Reason res = ''eliminated''))"
proof
  assume a: "\<forall>grow now g p st ct.
        len (hand_slice g p) = 0 \<and> \<not> canSlapIn g p \<longrightarrow>
        (\<exists>res g'. ProcessSlap grow now g p st ct = Done (res, g') \<and>
                  \<not> Success res \<and> Reason res = ''eliminated'')"
  let ?g = "stamped demo_game ''b'' 0"
  have z: "len (hand_slice ?g ''b'') = 0"
    by simp (simp add: demo_game_def hand_slice_def)
  have n: "\<not> canSlapIn ?g ''b''"
    by simp (simp add: demo_game_def canSlapIn_def)
  have cd: "in_cooldown ?g ''b'' 100000000"
    by (simp add: in_cooldown_def cooldown_window_def wrap64_def) (simp add: demo_game_def)
  from a z n obtain res g' where
    "ProcessSlap (\<lambda>c n. n) 100000000 ?g ''b'' 0 0 = Done (res, g')" "Reason res = ''eliminated''"
    by blast
  then show False by (auto simp: ProcessSlap_cooldown [OF cd] slap_failed_def)
qed

text \<open>
  C6, amended: for a slap attempt by a player with zero cards that is not rejected for
  cooldown. If slap-back-in is disabled or the player's slap-back-in count has reached
  the maximum, the result is a non-success with reason \<open>eliminated\<close> and no card moves
  (the state changes in the attempt tally and the recorded time only). If the player may
  slap back in and the pile is invalid, the result is a non-success with reason
  \<open>invalid\<close> and burn penalty 0, and again no card moves. If the player may slap back in
  and the pile is valid, the slap succeeds, the player's slap-back-in count grows by
  one, the hand is the former pile and the pile is empty.
\<close>

theorem zero_card_slap_back_in:
  assumes wfh: "wf_slice (Mem g) (hand_slice g p)" and wfp: "wf_slice (Mem g) (Pile g)"
    and nc: "\<not> in_cooldown g p now"
    and z: "hand g p = []"
  shows "(\<not> canSlapIn g p \<longrightarrow>
            ProcessSlap grow now g p st ct =
              Done (\<lparr>PlayerID = p, Success = False, Reason = ''eliminated'', CardsWon = 0,
                     BurnPenalty_p = 0\<rparr>,
                    g\<lparr>Stats := (Stats g)\<lparr>TotalSlaps := TotalSlaps (Stats g) + 1\<rparr>,
                      LastSlapTime := (LastSlapTime g)(p \<mapsto> now)\<rparr>)) \<and>
         (canSlapIn g p \<and> CheckSlap (Rules g) (pile_cards g) = SlapReasonInvalid \<longrightarrow>
            ProcessSlap grow now g p st ct =
              Done (\<lparr>PlayerID = p, Success = False, Reason = ''invalid'', CardsWon = 0,
                     BurnPenalty_p = 0\<rparr>,
                    g\<lparr>Stats := (Stats g)\<lparr>TotalSlaps := TotalSlaps (Stats g) + 1\<rparr>,
                      LastSlapTime := (LastSlapTime g)(p \<mapsto> now)\<rparr>)) \<and>
         (canSlapIn g p \<and> CheckSlap (Rules g) (pile_cards g) \<noteq> SlapReasonInvalid \<longrightarrow>
            (\<exists>res g'. ProcessSlap grow now g p st ct = Done (res, g') \<and>
               Success res \<and> CardsWon res = int (length (pile_cards g)) \<and>
               count_of (SlapInCounts g') p = count_of (SlapInCounts g) p + 1 \<and>
               hand g' p = pile_cards g \<and> pile_cards g' = []))"
proof -
  have z': "len (hand_slice g p) = 0"
    using z length_cards_of [OF wfh] by (simp add: hand_def)
  have st: "stamped g p now =
      g\<lparr>Stats := (Stats g)\<lparr>TotalSlaps := TotalSlaps (Stats g) + 1\<rparr>,
        LastSlapTime := (LastSlapTime g)(p \<mapsto> now)\<rparr>"
    by (simp add: stamped_def counted_def)
  have a: "\<not> canSlapIn g p \<Longrightarrow> ProcessSlap grow now g p st ct =
      Done (slap_failed p ''eliminated'' 0, stamped g p now)"
    unfolding ProcessSlap_after_cooldown [OF nc] Let_def using z' by simp
  have b: "canSlapIn g p \<and> CheckSlap (Rules g) (pile_cards g) = SlapReasonInvalid \<Longrightarrow>
      ProcessSlap grow now g p st ct = Done (slap_failed p ''invalid'' 0, stamped g p now)"
    unfolding ProcessSlap_after_cooldown [OF nc] Let_def using z'
    by (simp add: SlapReasonInvalid_def)
  have c: "\<exists>res g'. ProcessSlap grow now g p st ct = Done (res, g') \<and>
               Success res \<and> CardsWon res = int (length (pile_cards g)) \<and>
               count_of (SlapInCounts g') p = count_of (SlapInCounts g) p + 1 \<and>
               hand g' p = pile_cards g \<and> pile_cards g' = []"
    if el: "canSlapIn g p" and ok: "CheckSlap (Rules g) (pile_cards g) \<noteq> SlapReasonInvalid"
  proof -
    obtain m1 h1 where ap: "append_slice grow (Mem g) (hand_slice g p) (pile_cards g) = (m1, h1)"
      by (cases "append_slice grow (Mem g) (hand_slice g p) (pile_cards g)")
    from append_slice_cards [OF wfh ap] z have h1: "cards_of m1 h1 = pile_cards g"
      by (simp add: hand_def)
    from append_slice_wf(1) [OF wfh ap] have a1: "arr h1 < length m1"
      by (simp add: wf_slice_def)
    have won: "int (len (Pile g)) = int (length (pile_cards g))"
      using length_cards_of [OF wfp] by (simp add: pile_cards_def)
    from ProcessSlap_win [OF nc disjI2 [OF el] ok ap, of st ct] obtain g' where
      run: "ProcessSlap grow now g p st ct =
              Done (\<lparr>PlayerID = p, Success = True, Reason = CheckSlap (Rules g) (pile_cards g),
                     CardsWon = int (len (Pile g)), BurnPenalty_p = 0\<rparr>, g')"
      and ph: "PlayerHands g' = (PlayerHands g)(p \<mapsto> h1)" and mem: "Mem g' = m1 @ [replicate 52 zero_Card]"
      and pl: "Pile g' = \<lparr>arr = length m1, off = 0, len = 0\<rparr>"
      and sc: "SlapInCounts g' =
            (if 0 < len (hand_slice g p) then SlapInCounts g
             else (SlapInCounts g)(p \<mapsto> count_of (SlapInCounts g) p + 1))"
      by blast
    have "hand g' p = cards_of (m1 @ [replicate 52 zero_Card]) h1"
      by (simp add: hand_def hand_slice_def ph mem)
    also have "\<dots> = cards_of m1 h1" using a1 by (rule cards_of_extend)
    finally have hand': "hand g' p = pile_cards g" using h1 by simp
    have pile': "pile_cards g' = []" by (simp add: pile_cards_def pl cards_of_def)
    have cnt: "count_of (SlapInCounts g') p = count_of (SlapInCounts g) p + 1"
      using z' by (simp add: sc count_of_def)
    show ?thesis unfolding run using hand' pile' cnt won by simp
  qed
  show ?thesis using a b c unfolding st by (simp add: slap_failed_def)
qed

theorem zero_card_slap_back_in_witness:
  "wf_slice (Mem demo_game) (hand_slice demo_game ''b'') \<and>
   wf_slice (Mem demo_game) (Pile demo_game) \<and>
   \<not> in_cooldown demo_game ''b'' 0 \<and>
   hand demo_game ''b'' = [] \<and>
   \<not> canSlapIn demo_game ''b'' \<and>
   ProcessSlap (\<lambda>c n. n) 0 demo_game ''b'' 0 0 =
     Done (\<lparr>PlayerID = ''b'', Success = False, Reason = ''eliminated'', CardsWon = 0,
            BurnPenalty_p = 0\<rparr>,
           demo_game\<lparr>Stats := (Stats demo_game)\<lparr>TotalSlaps := TotalSlaps (Stats demo_game) + 1\<rparr>,
                     LastSlapTime := (LastSlapTime demo_game)(''b'' \<mapsto> 0)\<rparr>) \<and>
   canSlapIn (demo_game_jack\<lparr>EnableSlapIn := True\<rparr>) ''b'' \<and>
   (\<exists>res g'. ProcessSlap (\<lambda>c n. n) 0 (demo_game_jack\<lparr>EnableSlapIn := True\<rparr>) ''b'' 0 0
                 = Done (res, g') \<and>
      Success res \<and> CardsWon res = 3 \<and> count_of (SlapInCounts g') ''b'' = 1 \<and>
      hand g' ''b'' = pile_cards demo_game_jack \<and> pile_cards g' = [])"
proof -
  let ?j = "demo_game_jack\<lparr>EnableSlapIn := True\<rparr>"
  have wfh: "wf_slice (Mem demo_game) (hand_slice demo_game ''b'')"
    by (simp add: demo_game_def wf_slice_def hand_slice_def)
  have wfp: "wf_slice (Mem demo_game) (Pile demo_game)"
    by (simp add: demo_game_def wf_slice_def)
  have nc: "\<not> in_cooldown demo_game ''b'' 0"
    by (simp add: demo_game_def in_cooldown_def)
  have z: "hand demo_game ''b'' = []"
    by (simp add: demo_game_def hand_def hand_slice_def cards_of_def)
  have no: "\<not> canSlapIn demo_game ''b''" by (simp add: demo_game_def canSlapIn_def)
  have wfh': "wf_slice (Mem ?j) (hand_slice ?j ''b'')"
    by (simp add: demo_game_jack_def demo_game_def wf_slice_def hand_slice_def)
  have wfp': "wf_slice (Mem ?j) (Pile ?j)"
    by (simp add: demo_game_jack_def demo_game_def wf_slice_def)
  have nc': "\<not> in_cooldown ?j ''b'' 0"
    by (simp add: demo_game_jack_def demo_game_def in_cooldown_def)
  have z': "hand ?j ''b'' = []"
    by (simp add: demo_game_jack_def demo_game_def hand_def hand_slice_def cards_of_def)
  have yes: "canSlapIn ?j ''b''"
    by (simp add: demo_game_jack_def demo_game_def canSlapIn_def count_of_def)
  have pc: "pile_cards ?j = pile_cards demo_game_jack" by (simp add: pile_cards_def)
  have pcj: "pile_cards demo_game_jack =
      [\<lparr>Suit = ''clubs'', Rank = ''2''\<rparr>, \<lparr>Suit = ''diamonds'', Rank = ''5''\<rparr>,
       \<lparr>Suit = ''hearts'', Rank = ''J''\<rparr>]"
    by (simp add: demo_game_jack_def demo_game_def pile_cards_def cards_of_def array_at_def)
  have ok: "CheckSlap (Rules ?j) (pile_cards ?j) \<noteq> SlapReasonInvalid"
    unfolding pc pcj
    by (simp add: CheckSlap_def IsJack_def SlapReasonJack_def SlapReasonInvalid_def)
  have c0: "count_of (SlapInCounts ?j) ''b'' = 0"
    by (simp add: demo_game_jack_def demo_game_def count_of_def)
  from zero_card_slap_back_in [OF wfh wfp nc z, of "\<lambda>c n. n" 0 0] no
  have one: "ProcessSlap (\<lambda>c n. n) 0 demo_game ''b'' 0 0 =
     Done (\<lparr>PlayerID = ''b'', Success = False, Reason = ''eliminated'', CardsWon = 0,
            BurnPenalty_p = 0\<rparr>,
           demo_game\<lparr>Stats := (Stats demo_game)\<lparr>TotalSlaps := TotalSlaps (Stats demo_game) + 1\<rparr>,
                     LastSlapTime := (LastSlapTime demo_game)(''b'' \<mapsto> 0)\<rparr>)"
    by blast
  from zero_card_slap_back_in [OF wfh' wfp' nc' z', of "\<lambda>c n. n" 0 0] yes ok
  have two: "\<exists>res g'. ProcessSlap (\<lambda>c n. n) 0 ?j ''b'' 0 0 = Done (res, g') \<and>
               Success res \<and> CardsWon res = int (length (pile_cards ?j)) \<and>
               count_of (SlapInCounts g') ''b'' = count_of (SlapInCounts ?j) ''b'' + 1 \<and>
               hand g' ''b'' = pile_cards ?j \<and> pile_cards g' = []"
    by blast
  have l3: "int (length (pile_cards demo_game_jack)) = 3" unfolding pcj by simp
  show ?thesis using wfh wfp nc z no one yes two unfolding c0 pc l3 by simp
qed

section \<open>The host of a room\<close>

lemma one_host_NewRoom: "one_host (fst (NewRoom code hostName playerID))"
  by (simp add: NewRoom_def one_host_def Let_def)

lemma one_host_AddPlayer:
  assumes "one_host r" and "playerID \<notin> dom (Players r)"
  shows "one_host (snd (AddPlayer r name playerID))"
proof -
  from assms have "HostID r \<noteq> playerID" by (auto simp: one_host_def)
  with assms show ?thesis by (auto simp: AddPlayer_def one_host_def Let_def)
qed



lemma reindex_HostID: "HostID (reindex ks pos r) = HostID r"
proof (induction ks arbitrary: pos r)
  case Nil
  show ?case by simp
next
  case (Cons k' ks)
  show ?case
  proof (cases "Players r k'")
    case None
    then show ?thesis using Cons.IH [of pos r] by simp
  next
    case (Some q)
    then show ?thesis
      using Cons.IH [of "pos + 1" "r\<lparr>Players := (Players r)(k' \<mapsto> q\<lparr>Position := pos\<rparr>)\<rparr>"]
      by simp
  qed
qed

lemma reindex_view:
  "map_option (\<lambda>p. (ID p, IsHost p, IsConnected p)) (Players (reindex ks pos r) k) =
   map_option (\<lambda>p. (ID p, IsHost p, IsConnected p)) (Players r k)"
proof (induction ks arbitrary: pos r)
  case Nil
  show ?case by simp
next
  case (Cons k' ks)
  show ?case
  proof (cases "Players r k'")
    case None
    then show ?thesis using Cons.IH [of pos r] by simp
  next
    case (Some q)
    have "map_option (\<lambda>p. (ID p, IsHost p, IsConnected p))
            (Players (r\<lparr>Players := (Players r)(k' \<mapsto> q\<lparr>Position := pos\<rparr>)\<rparr>) k) =
          map_option (\<lambda>p. (ID p, IsHost p, IsConnected p)) (Players r k)"
      using Some by simp
    then show ?thesis
      using Some Cons.IH [of "pos + 1" "r\<lparr>Players := (Players r)(k' \<mapsto> q\<lparr>Position := pos\<rparr>)\<rparr>"]
      by (simp del: fun_upd_apply)
  qed
qed

lemma one_host_view:
  assumes h: "HostID r' = HostID r"
    and v: "\<And>k. map_option (\<lambda>p. (ID p, IsHost p, IsConnected p)) (Players r' k) =
                map_option (\<lambda>p. (ID p, IsHost p, IsConnected p)) (Players r k)"
    and inv: "one_host r"
  shows "one_host r'"
proof -
  have orig: "\<And>k p'. Players r' k = Some p' \<Longrightarrow>
      \<exists>p. Players r k = Some p \<and> ID p' = ID p \<and> IsHost p' = IsHost p"
  proof -
    fix k p' assume "Players r' k = Some p'"
    with v [of k] show "\<exists>p. Players r k = Some p \<and> ID p' = ID p \<and> IsHost p' = IsHost p"
      by (cases "Players r k") auto
  qed
  have hd: "HostID r' \<in> dom (Players r')"
  proof -
    from inv obtain p where "Players r (HostID r) = Some p" by (auto simp: one_host_def)
    with v [of "HostID r"] h show ?thesis by (cases "Players r' (HostID r)") auto
  qed
  have each: "\<forall>k p'. Players r' k = Some p' \<longrightarrow> ID p' = k \<and> (IsHost p' \<longleftrightarrow> k = HostID r')"
  proof (intro allI impI)
    fix k p' assume "Players r' k = Some p'"
    from orig [OF this] obtain p where p: "Players r k = Some p" "ID p' = ID p" "IsHost p' = IsHost p"
      by blast
    with inv have "ID p = k \<and> (IsHost p \<longleftrightarrow> k = HostID r)" by (simp add: one_host_def)
    with p h show "ID p' = k \<and> (IsHost p' \<longleftrightarrow> k = HostID r')" by simp
  qed
  show ?thesis unfolding one_host_def using hd each by blast
qed

lemma one_host_reindex: "one_host r \<Longrightarrow> one_host (reindex ks pos r)"
  by (rule one_host_view [OF reindex_HostID reindex_view])



lemma assign_host_finds:
  assumes "\<exists>k\<in>set ks. \<exists>p. Players r k = Some p \<and> IsConnected p"
    and "\<forall>k p. Players r k = Some p \<longrightarrow> ID p = k \<and> \<not> IsHost p"
  shows "one_host (assign_host ks r) \<and>
         (\<exists>p. Players (assign_host ks r) (HostID (assign_host ks r)) = Some p \<and> IsConnected p) \<and>
         HostID (assign_host ks r) \<in> dom (Players r)"
  using assms
proof (induction ks)
  case Nil
  then show ?case by simp
next
  case (Cons k ks)
  show ?case
  proof (cases "Players r k")
    case None
    with Cons show ?thesis by auto
  next
    case (Some p)
    show ?thesis
    proof (cases "IsConnected p")
      case True
      with Some Cons.prems(2) show ?thesis by (auto simp: one_host_def)
    next
      case False
      with Some Cons show ?thesis by auto
    qed
  qed
qed



lemma one_host_removed_other:
  assumes "one_host r" and "playerID \<noteq> HostID r"
  shows "one_host (r\<lparr>Players := (Players r)(playerID := None)\<rparr>)"
  using assms by (auto simp: one_host_def)

lemma RemovePlayer_one_host:
  assumes inv: "one_host r"
    and v: "set visit1 = dom (Players r) - {playerID}"
    and c: "playerID = HostID r \<longrightarrow>
              (\<exists>k p. k \<noteq> playerID \<and> Players r k = Some p \<and> IsConnected p)"
  shows "one_host (RemovePlayer visit1 visit2 r playerID) \<and>
         (\<exists>p. Players (RemovePlayer visit1 visit2 r playerID)
                 (HostID (RemovePlayer visit1 visit2 r playerID)) = Some p \<and>
              (playerID = HostID r \<longrightarrow> IsConnected p)) \<and>
         HostID (RemovePlayer visit1 visit2 r playerID) \<noteq> playerID"
proof -
  let ?r1 = "r\<lparr>Players := (Players r)(playerID := None)\<rparr>"
  let ?r2 = "if HostID ?r1 = playerID \<and> dom (Players ?r1) \<noteq> {}
             then assign_host visit1 ?r1 else ?r1"
  have rp: "RemovePlayer visit1 visit2 r playerID = reindex visit2 0 ?r2"
    by (simp only: RemovePlayer_def Let_def)
  have r2: "one_host ?r2 \<and>
            (\<exists>p. Players ?r2 (HostID ?r2) = Some p \<and> (playerID = HostID r \<longrightarrow> IsConnected p)) \<and>
            HostID ?r2 \<noteq> playerID"
  proof (cases "playerID = HostID r")
    case False
    then have "?r2 = ?r1" by simp
    moreover have "one_host ?r1" using inv False by (intro one_host_removed_other) auto
    moreover have "\<exists>p. Players ?r1 (HostID ?r1) = Some p"
      using inv False by (auto simp: one_host_def)
    ultimately show ?thesis using False by auto
  next
    case True
    with c obtain k p where kp: "k \<noteq> playerID" "Players r k = Some p" "IsConnected p" by blast
    then have ne: "dom (Players ?r1) \<noteq> {}" by auto
    have fnd: "\<exists>k\<in>set visit1. \<exists>p. Players ?r1 k = Some p \<and> IsConnected p"
      using kp v by auto
    have plain: "\<forall>k p. Players ?r1 k = Some p \<longrightarrow> ID p = k \<and> \<not> IsHost p"
      using inv True by (auto simp: one_host_def split: if_splits)
    have "?r2 = assign_host visit1 ?r1" using True ne by simp
    moreover from assign_host_finds [OF fnd plain]
    have "one_host (assign_host visit1 ?r1)"
      and "\<exists>p. Players (assign_host visit1 ?r1) (HostID (assign_host visit1 ?r1)) = Some p \<and> IsConnected p"
      and "HostID (assign_host visit1 ?r1) \<in> dom (Players ?r1)"
      by blast+
    moreover from this(3) have "HostID (assign_host visit1 ?r1) \<noteq> playerID" by auto
    ultimately show ?thesis by auto
  qed
  then obtain p where inv2: "one_host ?r2" and p: "Players ?r2 (HostID ?r2) = Some p"
    and pc: "playerID = HostID r \<longrightarrow> IsConnected p" and hn: "HostID ?r2 \<noteq> playerID" by blast
  have h: "HostID (reindex visit2 0 ?r2) = HostID ?r2" by (rule reindex_HostID)
  from reindex_view [of visit2 0 ?r2 "HostID ?r2"] p
  obtain p' where "Players (reindex visit2 0 ?r2) (HostID ?r2) = Some p'"
    "IsConnected p' = IsConnected p"
    by (cases "Players (reindex visit2 0 ?r2) (HostID ?r2)") auto
  with one_host_reindex [OF inv2, of visit2 0] pc hn h show ?thesis
    unfolding rp by auto
qed


text \<open>
  C10 as stated fails where the host leaves and none of the remaining players is
  connected: RemovePlayer hands the host role to a connected player only, so the room
  keeps a player, no player is host, and \<open>HostID\<close> still names the player who left.
\<close>

theorem host_leaves_disconnected_counterexample:
  "one_host demo_room \<and>
   set [''p''] = dom (Players demo_room) - {''h''} \<and>
   dom (Players (RemovePlayer [''p''] [''p''] demo_room ''h'')) = {''p''} \<and>
   \<not> (\<exists>k p. Players (RemovePlayer [''p''] [''p''] demo_room ''h'') k = Some p \<and> IsHost p) \<and>
   \<not> one_host (RemovePlayer [''p''] [''p''] demo_room ''h'')"
proof -
  have lobby: "lobby_room =
      \<lparr>Code = ''ABCD'',
       Players = [''h'' \<mapsto> \<lparr>ID = ''h'', Name = ''Ann'', IsHost = True, IsConnected = True,
                               Position = 0\<rparr>,
                  ''p'' \<mapsto> \<lparr>ID = ''p'', Name = ''Bob'', IsHost = False, IsConnected = True,
                               Position = 1\<rparr>],
       Status = ''waiting'', HostID = ''h''\<rparr>"
    by (simp add: lobby_room_def NewRoom_def AddPlayer_def Let_def)
  have room: "demo_room =
      \<lparr>Code = ''ABCD'',
       Players = [''h'' \<mapsto> \<lparr>ID = ''h'', Name = ''Ann'', IsHost = True, IsConnected = True,
                               Position = 0\<rparr>,
                  ''p'' \<mapsto> \<lparr>ID = ''p'', Name = ''Bob'', IsHost = False, IsConnected = False,
                               Position = 1\<rparr>],
       Status = ''waiting'', HostID = ''h''\<rparr>"
    by (simp add: demo_room_def lobby MarkPlayerDisconnected_def)
  have left: "RemovePlayer [''p''] [''p''] demo_room ''h'' =
      \<lparr>Code = ''ABCD'',
       Players = [''p'' \<mapsto> \<lparr>ID = ''p'', Name = ''Bob'', IsHost = False, IsConnected = False,
                               Position = 0\<rparr>],
       Status = ''waiting'', HostID = ''h''\<rparr>"
    by (simp add: room RemovePlayer_def Let_def fun_upd_twist)
  have a: "one_host demo_room" unfolding room by (simp add: one_host_def)
  have b: "set [''p''] = dom (Players demo_room) - {''h''}" unfolding room by auto
  show ?thesis using a b unfolding left by (auto simp: one_host_def)
qed


text \<open>
  C10, amended. A newly created room has its creator as sole player and host; AddPlayer
  (with a fresh id) and RemovePlayer preserve the host invariant (exactly one player has
  \<open>IsHost\<close>, and it is the player \<open>HostID\<close> names), the latter provided that, when the
  host is the one who leaves, at least one remaining player is connected; the host
  role then goes to a remaining connected player. The first loop of RemovePlayer visits
  the remaining players, in any order.
\<close>

theorem host_invariant:
  "one_host (fst (NewRoom code hostName playerID)) \<and>
   dom (Players (fst (NewRoom code hostName playerID))) = {playerID} \<and>
   HostID (fst (NewRoom code hostName playerID)) = playerID \<and>
   (one_host r \<and> newID \<notin> dom (Players r) \<longrightarrow> one_host (snd (AddPlayer r name newID))) \<and>
   (one_host r \<and> set visit1 = dom (Players r) - {leaver} \<and>
    (leaver = HostID r \<longrightarrow> (\<exists>k p. k \<noteq> leaver \<and> Players r k = Some p \<and> IsConnected p)) \<longrightarrow>
      one_host (RemovePlayer visit1 visit2 r leaver) \<and>
      HostID (RemovePlayer visit1 visit2 r leaver) \<noteq> leaver \<and>
      (\<exists>p. Players (RemovePlayer visit1 visit2 r leaver)
              (HostID (RemovePlayer visit1 visit2 r leaver)) = Some p \<and>
           (leaver = HostID r \<longrightarrow> IsConnected p)))"
proof (intro conjI impI)
  show "one_host (fst (NewRoom code hostName playerID))" by (rule one_host_NewRoom)
  show "dom (Players (fst (NewRoom code hostName playerID))) = {playerID}"
    by (simp add: NewRoom_def Let_def)
  show "HostID (fst (NewRoom code hostName playerID)) = playerID"
    by (simp add: NewRoom_def Let_def)
next
  assume "one_host r \<and> newID \<notin> dom (Players r)"
  then show "one_host (snd (AddPlayer r name newID))" by (simp add: one_host_AddPlayer)
next
  assume a: "one_host r \<and> set visit1 = dom (Players r) - {leaver} \<and>
    (leaver = HostID r \<longrightarrow> (\<exists>k p. k \<noteq> leaver \<and> Players r k = Some p \<and> IsConnected p))"
  then have inv: "one_host r" and v: "set visit1 = dom (Players r) - {leaver}"
    and c: "leaver = HostID r \<longrightarrow> (\<exists>k p. k \<noteq> leaver \<and> Players r k = Some p \<and> IsConnected p)"
    by blast+
  from RemovePlayer_one_host [OF inv v c, of visit2]
  show "one_host (RemovePlayer visit1 visit2 r leaver)"
    and "HostID (RemovePlayer visit1 visit2 r leaver) \<noteq> leaver"
    and "\<exists>p. Players (RemovePlayer visit1 visit2 r leaver)
              (HostID (RemovePlayer visit1 visit2 r leaver)) = Some p \<and>
           (leaver = HostID r \<longrightarrow> IsConnected p)"
    by blast+
qed

theorem host_invariant_witness:
  "one_host (fst (NewRoom ''ABCD'' ''Ann'' ''h'')) \<and>
   ''p'' \<notin> dom (Players (fst (NewRoom ''ABCD'' ''Ann'' ''h''))) \<and>
   one_host lobby_room \<and>
   set [''p''] = dom (Players lobby_room) - {''h''} \<and>
   ''h'' = HostID lobby_room \<and>
   (\<exists>k p. k \<noteq> ''h'' \<and> Players lobby_room k = Some p \<and> IsConnected p) \<and>
   one_host (RemovePlayer [''p''] [''p''] lobby_room ''h'') \<and>
   HostID (RemovePlayer [''p''] [''p''] lobby_room ''h'') \<noteq> ''h''"
proof -
  let ?r0 = "fst (NewRoom ''ABCD'' ''Ann'' ''h'')"
  have a: "one_host ?r0"
    using host_invariant [where code = "''ABCD''" and hostName = "''Ann''" and playerID = "''h''"]
    by blast
  have f: "''p'' \<notin> dom (Players ?r0)" by (simp add: NewRoom_def Let_def)
  have b: "one_host lobby_room"
    unfolding lobby_room_def
    using host_invariant [where r = ?r0 and newID = "''p''" and name = "''Bob''"] a f by blast
  have lobby: "Players lobby_room =
      [''h'' \<mapsto> \<lparr>ID = ''h'', Name = ''Ann'', IsHost = True, IsConnected = True, Position = 0\<rparr>,
       ''p'' \<mapsto> \<lparr>ID = ''p'', Name = ''Bob'', IsHost = False, IsConnected = True, Position = 1\<rparr>]"
    "HostID lobby_room = ''h''"
    by (simp_all add: lobby_room_def NewRoom_def AddPlayer_def Let_def)
  have v: "set [''p''] = dom (Players lobby_room) - {''h''}" unfolding lobby by auto
  have h: "''h'' = HostID lobby_room" by (simp add: lobby)
  have c: "\<exists>k p. k \<noteq> ''h'' \<and> Players lobby_room k = Some p \<and> IsConnected p"
    unfolding lobby by (intro exI [of _ "''p''"]) simp
  from host_invariant [where r = lobby_room and ?visit1.0 = "[''p'']" and leaver = "''h''"
      and ?visit2.0 = "[''p'']"] b v c
  have "one_host (RemovePlayer [''p''] [''p''] lobby_room ''h'') \<and>
        HostID (RemovePlayer [''p''] [''p''] lobby_room ''h'') \<noteq> ''h''"
    by blast
  with a f b v h c show ?thesis by blast
qed

section \<open>Every reachable state satisfies the invariant\<close>

lemma wf_slice_ext: "wf_slice m s \<Longrightarrow> store_ext m m' \<Longrightarrow> wf_slice m' s"
  by (auto simp: wf_slice_def store_ext_def)

lemma append_slice_ext:
  assumes "wf_slice m s" and "append_slice grow m s xs = (m', s')"
  shows "store_ext m m'"
proof (cases "len s + length xs \<le> cap m s")
  case True
  with assms have a: "arr s < length m"
    and fit: "off s + len s + length xs \<le> length (m ! arr s)"
    by (auto simp: wf_slice_def cap_def array_at_def)
  from True assms(2) have "m' = m[arr s := write_at (m ! arr s) (off s + len s) xs]"
    using a by (auto simp: append_slice_def Let_def array_at_def)
  then show ?thesis using fit a by (auto simp: store_ext_def nth_list_update length_write_at)
next
  case False
  with assms(2) have "\<exists>x. m' = m @ [x]" by (auto simp: append_slice_def Let_def)
  then show ?thesis by (auto simp: store_ext_def nth_append)
qed

lemma wf_reslice:
  "wf_slice m s \<Longrightarrow> b \<le> len s \<Longrightarrow>
   wf_slice m (s\<lparr>off := off s + b, len := len s - b\<rparr>) \<and> wf_slice m (s\<lparr>len := b\<rparr>)"
  by (auto simp: wf_slice_def)

lemma played_wf:
  assumes inv: "engine_inv g" and h: "0 < len (hand_slice g p)"
  shows "wf_slice (Mem (played grow g p)) (Pile (played grow g p)) \<and>
         (\<forall>q. wf_slice (Mem (played grow g p)) (hand_slice (played grow g p) q))"
proof -
  let ?h = "hand_slice g p"
  obtain m' s' where ap: "append_slice grow (Mem g) (Pile g) [slice_nth (Mem g) ?h 0] = (m', s')"
    by (cases "append_slice grow (Mem g) (Pile g) [slice_nth (Mem g) ?h 0]")
  from inv have wp: "wf_slice (Mem g) (Pile g)" and wh: "\<And>q. wf_slice (Mem g) (hand_slice g q)"
    by (simp_all add: engine_inv_def)
  have ext: "store_ext (Mem g) m'" by (rule append_slice_ext [OF wp ap])
  have pl: "wf_slice m' s'" by (rule append_slice_wf(1) [OF wp ap])
  have mem: "Mem (played grow g p) = m'" and pile: "Pile (played grow g p) = s'"
    and hands: "PlayerHands (played grow g p) =
      (PlayerHands g)(p \<mapsto> ?h\<lparr>off := off ?h + 1, len := len ?h - 1\<rparr>)"
    by (simp_all add: played_def Let_def ap)
  have "wf_slice m' (hand_slice (played grow g p) q)" for q
  proof (cases "q = p")
    case True
    then have "hand_slice (played grow g p) q = ?h\<lparr>off := off ?h + 1, len := len ?h - 1\<rparr>"
      by (simp add: hand_slice_def hands)
    moreover have "wf_slice (Mem g) (?h\<lparr>off := off ?h + 1, len := len ?h - 1\<rparr>)"
      using wf_reslice [OF wh [of p], of 1] h by simp
    ultimately show ?thesis using ext by (simp add: wf_slice_ext)
  next
    case False
    then have "hand_slice (played grow g p) q = hand_slice g q"
      by (simp add: hand_slice_def hands)
    then show ?thesis using wh [of q] ext by (simp add: wf_slice_ext)
  qed
  then show ?thesis using pl by (simp add: mem pile)
qed

lemma hand_slice_PendingSlaps [simp]:
  "hand_slice (g\<lparr>PendingSlaps := e\<rparr>) q = hand_slice g q"
  by (simp add: hand_slice_def)

lemma played_frame:
  "TurnOrder (played grow g p) = TurnOrder g"
  "CurrentTurnIdx (played grow g p) = CurrentTurnIdx g"
  by (simp_all add: played_def Let_def)

lemma engine_inv_after_play:
  assumes inv: "engine_inv g" and h: "0 < len (hand_slice g p)"
    and e: "e = [] \<or> e = PendingSlaps g"
    and g': "TurnOrder g' = TurnOrder g" "CurrentTurnIdx g' = CurrentTurnIdx g"
  shows "engine_inv ((played grow g p)\<lparr>PendingSlaps := e, CurrentTurnIdx := spec_next_seat g'\<rparr>)"
proof -
  from inv have i: "CurrentTurnIdx g < length (TurnOrder g)" and pe: "PendingSlaps g = []"
    by (simp_all add: engine_inv_def)
  have "spec_next_seat g' < length (TurnOrder g')"
    using spec_next_seat_less [of g'] g' i by simp
  then have idx: "spec_next_seat g' < length (TurnOrder g)" using g' by simp
  show ?thesis
    using played_wf [OF inv h, of grow] idx e pe
    by (auto simp: engine_inv_def played_frame)
qed

lemma PlayCard_inv:
  assumes inv: "engine_inv g" and r: "PlayCard grow g p = Some (Done (res, g'))"
  shows "engine_inv g'"
proof -
  from inv have i: "CurrentTurnIdx g < length (TurnOrder g)" by (simp add: engine_inv_def)
  show ?thesis
  proof (cases "TurnOrder g ! CurrentTurnIdx g = p \<and> 0 < len (hand_slice g p)")
    case True
    then have t: "TurnOrder g ! CurrentTurnIdx g = p" and h: "0 < len (hand_slice g p)" by simp_all
    let ?g3 = "(played grow g p)\<lparr>PendingSlaps := []\<rparr>"
    from PlayCard_success [OF i t h, of grow] r
    have "g' = (played grow g p)\<lparr>PendingSlaps := [], CurrentTurnIdx := spec_next_seat ?g3\<rparr>"
      by simp
    moreover have "TurnOrder ?g3 = TurnOrder g" "CurrentTurnIdx ?g3 = CurrentTurnIdx g"
      by (simp_all add: played_frame)
    ultimately show ?thesis
      using engine_inv_after_play [OF inv h, of "[]" ?g3 grow] by simp
  next
    case False
    then have "TurnOrder g ! CurrentTurnIdx g \<noteq> p \<or> len (hand_slice g p) = 0" by auto
    from PlayCard_error [OF i this, of grow] r have "g' = g" by auto
    with inv show ?thesis by simp
  qed
qed

lemma turn_timeout_inv:
  assumes inv: "engine_inv g" and r: "turn_timeout grow g room = Some (Done (es, g'))"
  shows "engine_inv g'"
proof -
  from inv have i: "CurrentTurnIdx g < length (TurnOrder g)" and pe: "PendingSlaps g = []"
    by (simp_all add: engine_inv_def)
  let ?p = "TurnOrder g ! CurrentTurnIdx g"
  show ?thesis
  proof (cases "0 < len (hand_slice g ?p)")
    case True
    let ?g3 = "played grow g ?p"
    from turn_timeout_success [OF i True, of grow room] r
    have "g' = ?g3\<lparr>CurrentTurnIdx := spec_next_seat ?g3\<rparr>" by (simp add: Let_def)
    moreover have "?g3\<lparr>PendingSlaps := PendingSlaps g\<rparr> = ?g3"
      by (cases g) (simp add: played_def Let_def)
    moreover have "TurnOrder ?g3 = TurnOrder g" "CurrentTurnIdx ?g3 = CurrentTurnIdx g"
      by (simp_all add: played_frame)
    ultimately show ?thesis
      using engine_inv_after_play [OF inv True, of "PendingSlaps g" ?g3 grow] by simp
  next
    case False
    with r i have "g' = g" by (simp add: turn_timeout_def Let_def)
    with inv show ?thesis by simp
  qed
qed


lemma seat_from_bound: "seat_from k xs p = Some i \<Longrightarrow> k \<le> i \<and> i < k + length xs"
proof (induction xs arbitrary: k)
  case Nil
  then show ?case by simp
next
  case (Cons x xs)
  show ?case
  proof (cases "x = p")
    case True
    with Cons.prems show ?thesis by simp
  next
    case False
    with Cons.prems have "seat_from (k + 1) xs p = Some i" by simp
    from Cons.IH [OF this] show ?thesis by simp
  qed
qed

lemma applyBurnPenalty_burn:
  assumes h: "0 < len (hand_slice g p)" and nn: "0 \<le> BurnPenalty g"
    and b: "b = min (nat (BurnPenalty g)) (len (hand_slice g p))"
    and ap: "append_slice grow (Mem g) ((hand_slice g p)\<lparr>len := b\<rparr>) (pile_cards g) = (m', s')"
  shows "applyBurnPenalty grow g p =
           Done (int b, g\<lparr>PlayerHands := (PlayerHands g)
                   (p \<mapsto> (hand_slice g p)\<lparr>off := off (hand_slice g p) + b,
                                            len := len (hand_slice g p) - b\<rparr>),
                   Mem := m', Pile := s'\<rparr>)"
proof (cases "BurnPenalty g > int (len (hand_slice g p))")
  case True
  then have "b = len (hand_slice g p)" using b by simp
  with True h ap show ?thesis
    by (simp add: applyBurnPenalty_def Let_def pile_cards_def)
next
  case False
  then have "b = nat (BurnPenalty g)" using b nn by simp
  with False h nn ap show ?thesis
    by (simp add: applyBurnPenalty_def Let_def pile_cards_def)
qed

lemma applyBurnPenalty_inv:
  assumes inv: "engine_inv g" and r: "applyBurnPenalty grow g p = Done (n, g')"
  shows "engine_inv g'"
proof (cases "len (hand_slice g p) = 0")
  case True
  with r have "g' = g" by (simp add: applyBurnPenalty_def Let_def)
  with inv show ?thesis by simp
next
  case False
  then have h: "0 < len (hand_slice g p)" by simp
  have nn: "0 \<le> BurnPenalty g"
  proof (rule ccontr)
    assume "\<not> 0 \<le> BurnPenalty g"
    with h have "applyBurnPenalty grow g p = Panic" by (simp add: applyBurnPenalty_def Let_def)
    with r show False by simp
  qed
  let ?h = "hand_slice g p"
  define b where "b = min (nat (BurnPenalty g)) (len ?h)"
  obtain m' s' where ap: "append_slice grow (Mem g) (?h\<lparr>len := b\<rparr>) (pile_cards g) = (m', s')"
    by (cases "append_slice grow (Mem g) (?h\<lparr>len := b\<rparr>) (pile_cards g)")
  from applyBurnPenalty_burn [OF h nn b_def ap] r
  have g': "g' = g\<lparr>PlayerHands := (PlayerHands g)(p \<mapsto> ?h\<lparr>off := off ?h + b, len := len ?h - b\<rparr>),
                  Mem := m', Pile := s'\<rparr>" by simp
  from inv have wh: "\<And>q. wf_slice (Mem g) (hand_slice g q)"
    and i: "CurrentTurnIdx g < length (TurnOrder g)" and pe: "PendingSlaps g = []"
    by (simp_all add: engine_inv_def)
  have bl: "b \<le> len ?h" by (simp add: b_def)
  from wf_reslice [OF wh [of p] bl]
  have w1: "wf_slice (Mem g) (?h\<lparr>off := off ?h + b, len := len ?h - b\<rparr>)"
    and w2: "wf_slice (Mem g) (?h\<lparr>len := b\<rparr>)" by simp_all
  have ext: "store_ext (Mem g) m'" by (rule append_slice_ext [OF w2 ap])
  have pl: "wf_slice m' s'" by (rule append_slice_wf(1) [OF w2 ap])
  have "wf_slice m' (hand_slice g' q)" for q
  proof (cases "q = p")
    case True
    then show ?thesis using w1 ext by (simp add: g' hand_slice_def wf_slice_ext)
  next
    case False
    then have "hand_slice g' q = hand_slice g q" by (simp add: g' hand_slice_def)
    then show ?thesis using wh [of q] ext by (simp add: wf_slice_ext)
  qed
  then show ?thesis using pl i pe by (simp add: engine_inv_def g')
qed

lemma engine_inv_Stats [simp]: "engine_inv (g\<lparr>Stats := s\<rparr>) = engine_inv g"
  by (simp add: engine_inv_def hand_slice_def)

lemma engine_inv_counted: "engine_inv g \<Longrightarrow> engine_inv (counted g)"
  by (simp add: counted_def)

lemma engine_inv_stamped: "engine_inv g \<Longrightarrow> engine_inv (stamped g p now)"
  by (simp add: stamped_def counted_def engine_inv_def hand_slice_def)

lemma ProcessSlap_inv:
  assumes inv: "engine_inv g" and r: "ProcessSlap grow now g p st ct = Done (res, g')"
  shows "engine_inv g'"
proof (cases "in_cooldown g p now")
  case True
  from ProcessSlap_cooldown [OF True, of grow st ct] r have "g' = counted g" by simp
  with inv show ?thesis by (simp add: engine_inv_counted)
next
  case nc: False
  let ?g2 = "stamped g p now"
  have inv2: "engine_inv ?g2" using inv by (rule engine_inv_stamped)
  show ?thesis
  proof (cases "CheckSlap (Rules g) (pile_cards g) = SlapReasonInvalid")
    case bad: True
    show ?thesis
    proof (cases "0 < len (hand_slice g p)")
      case True
      from r bad True obtain n g3 where
        b: "applyBurnPenalty grow ?g2 p = Done (n, g3)"
        and g': "g' = g3\<lparr>Stats := (Stats g3)\<lparr>CardsBurned := (CardsBurned (Stats g3))
                   (p \<mapsto> count_of (CardsBurned (Stats g3)) p + n)\<rparr>\<rparr>"
        unfolding ProcessSlap_after_cooldown [OF nc] Let_def
        by (auto split: outcome.splits)
      from applyBurnPenalty_inv [OF inv2 b] show ?thesis by (simp add: g')
    next
      case False
      with r bad have "g' = ?g2"
        unfolding ProcessSlap_after_cooldown [OF nc] Let_def by (auto split: if_splits)
      with inv2 show ?thesis by simp
    qed
  next
    case ok: False
    show ?thesis
    proof (cases "0 < len (hand_slice g p) \<or> canSlapIn g p")
      case False
      with r have "g' = ?g2"
        unfolding ProcessSlap_after_cooldown [OF nc] Let_def by (auto split: if_splits)
      with inv2 show ?thesis by simp
    next
      case el: True
      obtain m1 h1 where ap: "append_slice grow (Mem g) (hand_slice g p) (pile_cards g) = (m1, h1)"
        by (cases "append_slice grow (Mem g) (hand_slice g p) (pile_cards g)")
      from inv have wh: "\<And>q. wf_slice (Mem g) (hand_slice g q)"
        and i: "CurrentTurnIdx g < length (TurnOrder g)" and pe: "PendingSlaps g = []"
        by (simp_all add: engine_inv_def)
      from ProcessSlap_win [OF nc el ok ap, of st ct] r have
        ph: "PlayerHands g' = (PlayerHands g)(p \<mapsto> h1)"
        and ps: "PendingSlaps g' = PendingSlaps g"
        and mem: "Mem g' = m1 @ [replicate 52 zero_Card]"
        and pl: "Pile g' = \<lparr>arr = length m1, off = 0, len = 0\<rparr>"
        and ord: "TurnOrder g' = TurnOrder g"
        and idx: "CurrentTurnIdx g' =
            (case seat_from 0 (TurnOrder g) p of None \<Rightarrow> CurrentTurnIdx g | Some i \<Rightarrow> i)"
        by auto
      have ext: "store_ext (Mem g) (m1 @ [replicate 52 zero_Card])"
        using append_slice_ext [OF wh [of p] ap] by (auto simp: store_ext_def nth_append)
      have e1: "store_ext m1 (m1 @ [replicate 52 zero_Card])"
        by (auto simp: store_ext_def nth_append)
      have w1: "wf_slice (m1 @ [replicate 52 zero_Card]) h1"
        using append_slice_wf(1) [OF wh [of p] ap] e1 by (rule wf_slice_ext)
      have "wf_slice (Mem g') (hand_slice g' q)" for q
      proof (cases "q = p")
        case True
        then show ?thesis using w1 by (simp add: hand_slice_def ph mem)
      next
        case False
        then have "hand_slice g' q = hand_slice g q" by (simp add: hand_slice_def ph)
        then show ?thesis using wh [of q] ext by (simp add: mem wf_slice_ext)
      qed
      moreover have "wf_slice (Mem g') (Pile g')" by (simp add: mem pl wf_slice_def)
      moreover have "CurrentTurnIdx g' < length (TurnOrder g')"
        using idx i seat_from_bound [of 0 "TurnOrder g" p]
        by (auto simp: ord split: option.splits)
      ultimately show ?thesis using ps pe by (simp add: engine_inv_def)
    qed
  qed
qed


lemma length_shuffle_from: "length (shuffle_from rnd i cs) = length cs"
  by (induction i arbitrary: cs) (simp_all add: swap_cards_def)

lemma length_Shuffle: "length (Shuffle rnd cs) = length cs"
  by (simp add: Shuffle_def length_shuffle_from)

lemma length_NewDeck: "length NewDeck = 52"
  by (simp add: NewDeck_def suits_def ranks_def)

lemma length_deal_loop: "length (deal_loop n i cs hands) = length hands"
  by (induction cs arbitrary: i hands) simp_all

lemma map_upds_value:
  "(m(xs [\<mapsto>] ys)) k = Some v \<Longrightarrow> m k = Some v \<or> v \<in> set ys"
proof (induction xs arbitrary: m ys)
  case Nil
  then show ?case by simp
next
  case (Cons x xs)
  show ?case
  proof (cases ys)
    case Nil
    with Cons.prems show ?thesis by simp
  next
    case (Cons y ys')
    with Cons.prems have "((m(x \<mapsto> y))(xs [\<mapsto>] ys')) k = Some v" by simp
    from Cons.IH [OF this] Cons show ?thesis by (auto split: if_splits)
  qed
qed

lemma NewGame_inv:
  assumes "NewGame rnd playerIDs enableDoubles enableSandwich burnPenalty slapCooldownMs
             turnTimeoutMs enableSlapIn maxSlapIns = Done g"
  shows "engine_inv g"
proof -
  let ?n = "length playerIDs"
  let ?deck = "Shuffle rnd NewDeck"
  have deck: "?deck \<noteq> []" using length_Shuffle [of rnd NewDeck] length_NewDeck by auto
  from assms obtain hands where d: "Deal ?deck ?n = Some hands"
    by (auto simp: NewGame_def split: option.splits)
  with deck have n: "0 < ?n" and hands: "hands = deal_loop ?n 0 ?deck (replicate ?n [])"
    by (auto simp: Deal_def split: if_splits)
  have lh: "length hands = ?n" by (simp add: hands length_deal_loop)
  let ?pad = "\<lambda>h. h @ replicate (52 div ?n + 1 - length h) zero_Card"
  let ?m0 = "[] # map ?pad hands"
  let ?hs = "map (\<lambda>i. \<lparr>arr = Suc i, off = 0, len = length (hands ! i)\<rparr>) [0..<?n]"
  let ?m1 = "?m0 @ [replicate 52 zero_Card]"
  from assms d have
    mem: "Mem g = ?m1" and ph: "PlayerHands g = Map.empty(playerIDs [\<mapsto>] ?hs)"
    and pile: "Pile g = \<lparr>arr = length ?m0, off = 0, len = 0\<rparr>"
    and ord: "TurnOrder g = playerIDs" and idx: "CurrentTurnIdx g = 0"
    and pe: "PendingSlaps g = []"
    by (auto simp: NewGame_def Let_def make_slice_def)
  have "wf_slice ?m1 (hand_slice g p)" for p
  proof (cases "PlayerHands g p")
    case None
    then show ?thesis by (simp add: hand_slice_def nil_slice_def wf_slice_def)
  next
    case (Some s)
    with map_upds_value [of Map.empty playerIDs ?hs p s] ph have "s \<in> set ?hs" by simp
    then obtain i where i: "i < ?n" "s = \<lparr>arr = Suc i, off = 0, len = length (hands ! i)\<rparr>"
      by auto
    then have "wf_slice ?m1 s" using lh by (simp add: wf_slice_def nth_append)
    with Some show ?thesis by (simp add: hand_slice_def)
  qed
  moreover have "wf_slice ?m1 (Pile g)" by (simp add: pile wf_slice_def)
  ultimately show ?thesis using n pe by (simp add: engine_inv_def mem ord idx)
qed

lemma step_inv:
  "engine_inv g \<Longrightarrow> step grow g a = Some (Done g') \<Longrightarrow> engine_inv g'"
proof (cases a)
  case (Play p)
  assume "engine_inv g" "step grow g a = Some (Done g')"
  with Play show ?thesis
    by (auto split: option.splits outcome.splits dest: PlayCard_inv)
next
  case (Slap p now)
  assume "engine_inv g" "step grow g a = Some (Done g')"
  with Slap show ?thesis
    by (auto split: option.splits outcome.splits dest: ProcessSlap_inv)
next
  case (Timeout room)
  assume "engine_inv g" "step grow g a = Some (Done g')"
  with Timeout show ?thesis
    by (auto split: option.splits outcome.splits dest: turn_timeout_inv)
qed

lemma run_inv:
  "engine_inv g \<Longrightarrow> run grow g as = Some (Done g') \<Longrightarrow> engine_inv g'"
proof (induction as arbitrary: g)
  case Nil
  then show ?case by simp
next
  case (Cons a as)
  from Cons.prems(2) obtain g1 where s: "step grow g a = Some (Done g1)"
    and r: "run grow g1 as = Some (Done g')"
    by (auto split: option.splits outcome.splits)
  from step_inv [OF Cons.prems(1) s] r show ?case by (rule Cons.IH)
qed

text \<open>
  The hypotheses on the game state that the theorems above carry (a turn index that
  names a seat, an empty list of pending slap attempts, slices inside their arrays)
  hold in every state reached from a game that NewGame returned, by any sequence of
  plays, slaps and timeouts, whatever the growth policy of \<^verbatim>\<open>append\<close>.
\<close>

lemma reachable_inv:
  assumes "NewGame rnd playerIDs enableDoubles enableSandwich burnPenalty slapCooldownMs
             turnTimeoutMs enableSlapIn maxSlapIns = Done g0"
    and "run grow g0 as = Some (Done g)"
  shows "PendingSlaps g = [] \<and> CurrentTurnIdx g < length (TurnOrder g) \<and>
         wf_slice (Mem g) (Pile g) \<and> (\<forall>p. wf_slice (Mem g) (hand_slice g p))"
  using run_inv [OF NewGame_inv [OF assms(1)] assms(2)] by (simp add: engine_inv_def)

section \<open>The burn penalty and the hand's backing array\<close>

lemma cards_of_prefix:
  "b \<le> len s \<Longrightarrow> cards_of m (s\<lparr>len := b\<rparr>) = take b (cards_of m s)"
  by (simp add: cards_of_def min_def)

text \<open>
  What the burn does do, in every state: the result, the burn count, the statistics, the
  new pile (the burned cards below the old pile) and the length of the new hand.
\<close>

lemma burn_penalty_effect:
  assumes wfh: "wf_slice (Mem g) (hand_slice g p)"
    and nc: "\<not> in_cooldown g p now"
    and h: "hand g p \<noteq> []"
    and bad: "CheckSlap (Rules g) (pile_cards g) = SlapReasonInvalid"
    and nn: "0 \<le> BurnPenalty g"
    and b: "b = min (nat (BurnPenalty g)) (length (hand g p))"
  shows "\<exists>res g'. ProcessSlap grow now g p st ct = Done (res, g') \<and>
           \<not> Success res \<and> Reason res = ''invalid'' \<and> BurnPenalty_p res = int b \<and>
           pile_cards g' = take b (hand g p) @ pile_cards g \<and>
           length (hand g' p) = length (hand g p) - b \<and>
           count_of (CardsBurned (Stats g')) p = count_of (CardsBurned (Stats g)) p + int b"
proof -
  let ?h = "hand_slice g p"
  let ?g2 = "stamped g p now"
  have lh: "length (hand g p) = len ?h" using length_cards_of [OF wfh] by (simp add: hand_def)
  with h have pos: "0 < len ?h" by (cases "hand g p") auto
  have b': "b = min (nat (BurnPenalty ?g2)) (len (hand_slice ?g2 p))" using b lh by simp
  have bl: "b \<le> len ?h" using b lh by simp
  have pc2: "pile_cards ?g2 = pile_cards g" by (simp add: pile_cards_def)
  obtain m' s' where ap: "append_slice grow (Mem g) (?h\<lparr>len := b\<rparr>) (pile_cards g) = (m', s')"
    by (cases "append_slice grow (Mem g) (?h\<lparr>len := b\<rparr>) (pile_cards g)")
  let ?g3 = "?g2\<lparr>PlayerHands := (PlayerHands ?g2)
                 (p \<mapsto> ?h\<lparr>off := off ?h + b, len := len ?h - b\<rparr>), Mem := m', Pile := s'\<rparr>"
  have burn: "applyBurnPenalty grow ?g2 p = Done (int b, ?g3)"
    using applyBurnPenalty_burn [of ?g2 p b grow m' s'] pos nn b' ap by (simp add: pc2)
  let ?g' = "?g3\<lparr>Stats := (Stats ?g3)\<lparr>CardsBurned := (CardsBurned (Stats ?g3))
                 (p \<mapsto> count_of (CardsBurned (Stats ?g3)) p + int b)\<rparr>\<rparr>"
  have run: "ProcessSlap grow now g p st ct = Done (slap_failed p SlapReasonInvalid (int b), ?g')"
    unfolding ProcessSlap_after_cooldown [OF nc] Let_def using pos bad by (simp add: burn)
  from wf_reslice [OF wfh bl]
  have w1: "wf_slice (Mem g) (?h\<lparr>off := off ?h + b, len := len ?h - b\<rparr>)"
    and w2: "wf_slice (Mem g) (?h\<lparr>len := b\<rparr>)" by simp_all
  have "pile_cards ?g' = cards_of m' s'" by (simp add: pile_cards_def)
  also have "\<dots> = cards_of (Mem g) (?h\<lparr>len := b\<rparr>) @ pile_cards g"
    by (rule append_slice_cards [OF w2 ap])
  also have "cards_of (Mem g) (?h\<lparr>len := b\<rparr>) = take b (hand g p)"
    using cards_of_prefix [OF bl] by (simp add: hand_def)
  finally have pile': "pile_cards ?g' = take b (hand g p) @ pile_cards g" .
  have "wf_slice m' (?h\<lparr>off := off ?h + b, len := len ?h - b\<rparr>)"
    using w1 append_slice_ext [OF w2 ap] by (rule wf_slice_ext)
  from length_cards_of [OF this]
  have "length (cards_of m' (?h\<lparr>off := off ?h + b, len := len ?h - b\<rparr>)) = len ?h - b"
    by simp
  moreover have "hand ?g' p = cards_of m' (?h\<lparr>off := off ?h + b, len := len ?h - b\<rparr>)"
    by (simp add: hand_def hand_slice_def [of "_\<lparr>Stats := _\<rparr>"])
  ultimately have hand': "length (hand ?g' p) = length (hand g p) - b"
    by (simp add: lh)
  have stat: "count_of (CardsBurned (Stats ?g')) p = count_of (CardsBurned (Stats g)) p + int b"
    by (simp add: count_of_def)
  show ?thesis
    unfolding run using pile' hand' stat
    by (simp add: slap_failed_def SlapReasonInvalid_def)
qed


text \<open>
  And what it does to the cards the player keeps: whenever the burned cards and the pile
  together are no more than the hand (so that they fit the capacity of
  \<^verbatim>\<open>hand[:burnCount]\<close>, whatever the growth policy), the pile is written into the hand's
  array behind the burned cards, and the kept hand begins with the pile's cards in
  place of its own.
\<close>

lemma drop_write_at:
  "i \<le> length a \<Longrightarrow> drop i (write_at a i xs) = xs @ drop (i + length xs) a"
  by (simp add: write_at_def)

lemma burn_overwrites_kept_hand:
  assumes wfh: "wf_slice (Mem g) (hand_slice g p)"
    and nc: "\<not> in_cooldown g p now"
    and h: "hand g p \<noteq> []"
    and bad: "CheckSlap (Rules g) (pile_cards g) = SlapReasonInvalid"
    and nn: "0 \<le> BurnPenalty g"
    and b: "b = min (nat (BurnPenalty g)) (length (hand g p))"
    and room: "b + length (pile_cards g) \<le> length (hand g p)"
  shows "\<exists>res g'. ProcessSlap grow now g p st ct = Done (res, g') \<and>
           hand g' p = pile_cards g @ drop (b + length (pile_cards g)) (hand g p)"
proof -
  let ?h = "hand_slice g p"
  let ?g2 = "stamped g p now"
  let ?a = "Mem g ! arr ?h"
  let ?k = "length (pile_cards g)"
  have ar: "arr ?h < length (Mem g)" and fit: "off ?h + len ?h \<le> length ?a"
    using wfh by (simp_all add: wf_slice_def)
  have lh: "length (hand g p) = len ?h" using length_cards_of [OF wfh] by (simp add: hand_def)
  with h have pos: "0 < len ?h" by (cases "hand g p") auto
  have b': "b = min (nat (BurnPenalty ?g2)) (len (hand_slice ?g2 p))" using b lh by simp
  have pc2: "pile_cards ?g2 = pile_cards g" by (simp add: pile_cards_def)
  let ?m' = "(Mem g)[arr ?h := write_at ?a (off ?h + b) (pile_cards g)]"
  have ap: "append_slice grow (Mem g) (?h\<lparr>len := b\<rparr>) (pile_cards g) = (?m', ?h\<lparr>len := b + ?k\<rparr>)"
  proof -
    have "b + ?k \<le> length ?a - off ?h" using room lh fit by linarith
    then show ?thesis using ar by (simp add: append_slice_def Let_def cap_def array_at_def)
  qed
  let ?kept = "?h\<lparr>off := off ?h + b, len := len ?h - b\<rparr>"
  let ?g3 = "?g2\<lparr>PlayerHands := (PlayerHands ?g2)(p \<mapsto> ?kept), Mem := ?m',
                 Pile := ?h\<lparr>len := b + ?k\<rparr>\<rparr>"
  have burn: "applyBurnPenalty grow ?g2 p = Done (int b, ?g3)"
    using applyBurnPenalty_burn [of ?g2 p b grow ?m' "?h\<lparr>len := b + ?k\<rparr>"] pos nn b' ap
    by (simp add: pc2)
  let ?g' = "?g3\<lparr>Stats := (Stats ?g3)\<lparr>CardsBurned := (CardsBurned (Stats ?g3))
                 (p \<mapsto> count_of (CardsBurned (Stats ?g3)) p + int b)\<rparr>\<rparr>"
  have run: "ProcessSlap grow now g p st ct = Done (slap_failed p SlapReasonInvalid (int b), ?g')"
    unfolding ProcessSlap_after_cooldown [OF nc] Let_def using pos bad by (simp add: burn)
  have "hand ?g' p = cards_of ?m' ?kept"
    by (simp add: hand_def hand_slice_def [of "_\<lparr>Stats := _\<rparr>"])
  also have "\<dots> = take (len ?h - b) (drop (off ?h + b) (write_at ?a (off ?h + b) (pile_cards g)))"
    using ar by (simp add: cards_of_def array_at_def)
  also have "drop (off ?h + b) (write_at ?a (off ?h + b) (pile_cards g))
      = pile_cards g @ drop (off ?h + b + ?k) ?a"
    using fit room lh by (intro drop_write_at) simp
  also have "take (len ?h - b) (pile_cards g @ drop (off ?h + b + ?k) ?a)
      = pile_cards g @ take (len ?h - b - ?k) (drop (off ?h + b + ?k) ?a)"
    using room lh by simp
  also have "take (len ?h - b - ?k) (drop (off ?h + b + ?k) ?a) = drop (b + ?k) (hand g p)"
    using ar by (simp add: hand_def cards_of_def array_at_def drop_take add.commute add.left_commute)
  finally have "hand ?g' p = pile_cards g @ drop (b + ?k) (hand g p)" .
  with run show ?thesis by blast
qed

text \<open>
  C1. Card conservation says that the multiset of the cards of all hands and the pile
  is the full deck in every reachable state. It is at the start. After \<open>a\<close> and \<open>b\<close> have
  each played a card and \<open>a\<close> has slapped the (invalid) pile, it is not: there are still
  52 cards, but the Ace of hearts is there twice and the 5 of hearts is gone. The burn
  appends the pile to \<^verbatim>\<open>hand[:burnCount]\<close>, a slice with the capacity of the whole hand,
  so the pile's cards are written over the cards the player keeps.
\<close>

theorem burn_breaks_card_conservation:
  "(case fresh_game of
      Done g \<Rightarrow> mset (all_cards g) = mset NewDeck
    | Panic \<Rightarrow> False) \<and>
   (case run_from_start [Play ''a'', Play ''b'', Slap ''a'' 0] of
      Some (Done g) \<Rightarrow> length (all_cards g) = 52 \<and> mset (all_cards g) \<noteq> mset NewDeck \<and>
         count (mset (all_cards g)) \<lparr>Suit = ''hearts'', Rank = ''A''\<rparr> = 2 \<and>
         count (mset (all_cards g)) \<lparr>Suit = ''hearts'', Rank = ''5''\<rparr> = 0
    | _ \<Rightarrow> False)"
  by code_simp

text \<open>
  C4. A player holding cards who slaps an invalid pile outside the cooldown should lose
  exactly the burned cards from the front of the hand. In the state after \<open>a\<close> and \<open>b\<close>
  have each played a card, the slap of \<open>a\<close> burns one card, the pile becomes the burned
  card followed by the old pile, and the hand is one card shorter, but it is not the
  old hand without its first card: its first two cards are now the old pile.
\<close>

theorem burn_overwrites_hand:
  "(case run_from_start [Play ''a'', Play ''b''] of
      Some (Done g) \<Rightarrow>
        hand g ''a'' \<noteq> [] \<and> \<not> in_cooldown g ''a'' 0 \<and>
        CheckSlap (Rules g) (pile_cards g) = ''invalid'' \<and>
        (case ProcessSlap (\<lambda>c n. n) 0 g ''a'' 0 0 of
           Done (res, g') \<Rightarrow>
             Reason res = ''invalid'' \<and> BurnPenalty_p res = 1 \<and>
             pile_cards g' = take 1 (hand g ''a'') @ pile_cards g \<and>
             length (hand g' ''a'') = length (hand g ''a'') - 1 \<and>
             hand g' ''a'' \<noteq> drop 1 (hand g ''a'') \<and>
             take 2 (hand g' ''a'') = pile_cards g
         | Panic \<Rightarrow> False)
    | _ \<Rightarrow> False)"
  by code_simp

end
